theory Spec2Isabelle
  imports Main
begin

section \<open>createFastContext: the store core and the per-key accessor\<close>

text \<open>
  The source is one factory, \<^verbatim>\<open>createFastContext(initialState)\<close>. Its internal hook
  \<^verbatim>\<open>useStoreData\<close> owns two references, \<^verbatim>\<open>store.current\<close> (a plain object) and
  \<^verbatim>\<open>subscribers.current\<close> (a JavaScript \<^verbatim>\<open>Set\<close> of callbacks), and returns the three
  closures \<^verbatim>\<open>get\<close>, \<^verbatim>\<open>set\<close> and \<^verbatim>\<open>subscribe\<close>. The hook \<^verbatim>\<open>useStore(key)\<close> reads the
  store from the React context and builds the snapshot reader and the setter of one key.

  A plain object is a map from keys to values; a missing property reads as
  \<^verbatim>\<open>undefined\<close>, which is \<open>None\<close> here. A callback is a function object, compared by
  reference: it is identified by a number, and the table \<open>code\<close> gives the body of each.
\<close>

subsection \<open>The JavaScript Set of callbacks\<close>

text \<open>
  ECMAScript keeps the elements of a Set in the list \<^verbatim>\<open>[[SetData]]\<close>, in insertion order.
  \<^verbatim>\<open>add\<close> appends a value that is not yet an element, \<^verbatim>\<open>delete\<close> overwrites the
  element with the marker \<^verbatim>\<open>empty\<close> (here \<open>None\<close>) and leaves the list as long as it
  was, and \<^verbatim>\<open>forEach\<close> walks the list by index, reading its length again after every
  call of the callback function.
\<close>

type_synonym callback = nat

type_synonym set_data = "callback option list"

fun set_add :: "callback \<Rightarrow> set_data \<Rightarrow> set_data" where
  "set_add c [] = [Some c]"
| "set_add c (e # es) = (if e = Some c then e # es else e # set_add c es)"

fun set_delete :: "callback \<Rightarrow> set_data \<Rightarrow> bool \<times> set_data" where
  "set_delete c [] = (False, [])"
| "set_delete c (e # es) =
     (if e = Some c then (True, None # es)
      else (fst (set_delete c es), e # snd (set_delete c es)))"

definition members :: "set_data \<Rightarrow> callback set" where
  "members es = {c. Some c \<in> set es}"

text \<open>The elements of a Set are pairwise different: \<^verbatim>\<open>add\<close> keeps it so.\<close>

definition set_ok :: "set_data \<Rightarrow> bool" where
  "set_ok es = distinct (filter (\<lambda>e. e \<noteq> None) es)"

subsection \<open>The store and what callbacks may do\<close>

text \<open>
  The body of a callback is a program over the store's three closures: it may call
  \<^verbatim>\<open>get()\<close> and go on according to the object it receives, call \<^verbatim>\<open>set(value)\<close>,
  call \<^verbatim>\<open>subscribe(c)\<close>, or call the function that \<^verbatim>\<open>subscribe(c)\<close> returned, any
  number of times and in any order, and then it returns. The same programs describe a
  client of the store, which makes such calls one after the other. A callback that
  throws would end \<^verbatim>\<open>forEach\<close>, and with it \<^verbatim>\<open>set\<close>, by its exception; the programs
  have no throw, and what is proved of a call is proved of a call that returns.
  The field \<open>history\<close> is a ghost log of those calls, of the invocations made by
  \<^verbatim>\<open>forEach\<close> and of the returns of the callbacks invoked; no operation reads it.
\<close>

datatype ('k, 'v) event =
    EvSet "'k \<rightharpoonup> 'v"
  | EvGet "'k \<rightharpoonup> 'v"
  | EvSubscribe callback
  | EvUnsubscribe callback
  | EvInvoke callback
  | EvReturn callback

datatype ('k, 'v) prog =
    Return
  | CallGet "('k \<rightharpoonup> 'v) \<Rightarrow> ('k, 'v) prog"
  | CallSet "'k \<rightharpoonup> 'v" "('k, 'v) prog"
  | CallSubscribe callback "('k, 'v) prog"
  | CallUnsubscribe callback "('k, 'v) prog"

record ('k, 'v) store_data =
  store_current :: "'k \<rightharpoonup> 'v"
  subscribers_current :: set_data
  history :: "('k, 'v) event list"

text \<open>\<^verbatim>\<open>useStoreData\<close>: \<^verbatim>\<open>useRef(initialState)\<close> and \<^verbatim>\<open>useRef(new Set())\<close>.\<close>

definition useStoreData :: "('k \<rightharpoonup> 'v) \<Rightarrow> ('k, 'v) store_data" where
  "useStoreData initialState =
     \<lparr>store_current = initialState, subscribers_current = [], history = []\<rparr>"

text \<open>\<^verbatim>\<open>const get = () => store.current\<close>\<close>

definition get :: "('k, 'v) store_data \<Rightarrow> ('k \<rightharpoonup> 'v)" where
  "get st = store_current st"

text \<open>
  \<^verbatim>\<open>subscribe\<close> adds the callback and returns the closure
  \<^verbatim>\<open>() => subscribers.current.delete(callback)\<close>, which is determined by the callback
  it has captured and returns what \<^verbatim>\<open>delete\<close> returns.
\<close>

datatype unsubscribe = Unsubscribe callback

definition subscribe :: "callback \<Rightarrow> ('k, 'v) store_data \<Rightarrow> unsubscribe \<times> ('k, 'v) store_data" where
  "subscribe c st =
     (Unsubscribe c,
      st\<lparr>subscribers_current := set_add c (subscribers_current st),
         history := history st @ [EvSubscribe c]\<rparr>)"

fun call_unsubscribe :: "unsubscribe \<Rightarrow> ('k, 'v) store_data \<Rightarrow> bool \<times> ('k, 'v) store_data" where
  "call_unsubscribe (Unsubscribe c) st =
     (fst (set_delete c (subscribers_current st)),
      st\<lparr>subscribers_current := snd (set_delete c (subscribers_current st)),
         history := history st @ [EvUnsubscribe c]\<rparr>)"

text \<open>The first statement of \<^verbatim>\<open>set\<close>: \<^verbatim>\<open>store.current = { ...store.current, ...value }\<close>.\<close>

definition assign :: "('k \<rightharpoonup> 'v) \<Rightarrow> ('k, 'v) store_data \<Rightarrow> ('k, 'v) store_data" where
  "assign v st =
     st\<lparr>store_current := store_current st ++ v, history := history st @ [EvSet v]\<rparr>"

definition log_event :: "('k, 'v) event \<Rightarrow> ('k, 'v) store_data \<Rightarrow> ('k, 'v) store_data" where
  "log_event e st = st\<lparr>history := history st @ [e]\<rparr>"

text \<open>
  \<^verbatim>\<open>set\<close> and the callbacks call each other, and \<^verbatim>\<open>forEach\<close> visits what is appended
  while it runs, so a call need not return. The first argument bounds the number of
  steps; \<open>None\<close> is a call that has not returned within the bound.
  \<^item> \<open>run\<close> executes the body of a callback;
  \<^item> \<open>forEach\<close> is \<^verbatim>\<open>subscribers.current.forEach((callback) => callback())\<close> from
    index \<open>i\<close> on;
  \<^item> \<open>set_store\<close> is \<^verbatim>\<open>set\<close>.
\<close>

fun run :: "nat \<Rightarrow> (callback \<Rightarrow> ('k, 'v) prog) \<Rightarrow> ('k, 'v) prog \<Rightarrow> ('k, 'v) store_data
              \<Rightarrow> ('k, 'v) store_data option"
  and forEach :: "nat \<Rightarrow> (callback \<Rightarrow> ('k, 'v) prog) \<Rightarrow> nat \<Rightarrow> ('k, 'v) store_data
              \<Rightarrow> ('k, 'v) store_data option"
  and set_store :: "nat \<Rightarrow> (callback \<Rightarrow> ('k, 'v) prog) \<Rightarrow> ('k \<rightharpoonup> 'v) \<Rightarrow> ('k, 'v) store_data
              \<Rightarrow> ('k, 'v) store_data option"
where
  "run 0 code p st = None"
| "run (Suc n) code Return st = Some st"
| "run (Suc n) code (CallGet f) st = run n code (f (get st)) (log_event (EvGet (get st)) st)"
| "run (Suc n) code (CallSet v p) st =
     (case set_store n code v st of None \<Rightarrow> None | Some st' \<Rightarrow> run n code p st')"
| "run (Suc n) code (CallSubscribe c p) st = run n code p (snd (subscribe c st))"
| "run (Suc n) code (CallUnsubscribe c p) st =
     run n code p (snd (call_unsubscribe (Unsubscribe c) st))"
| "forEach 0 code i st = None"
| "forEach (Suc n) code i st =
     (if i < length (subscribers_current st) then
        (case subscribers_current st ! i of
           None \<Rightarrow> forEach n code (Suc i) st
         | Some c \<Rightarrow>
             (case run n code (code c) (log_event (EvInvoke c) st) of
                None \<Rightarrow> None
              | Some st' \<Rightarrow> forEach n code (Suc i) (log_event (EvReturn c) st')))
      else Some st)"
| "set_store 0 code v st = None"
| "set_store (Suc n) code v st = forEach n code 0 (assign v st)"

subsection \<open>The notification as the specification words it\<close>

text \<open>
  The specification's notification cascade: every callback of a list is invoked once, in
  the order of the list, each on the state that the one before it has left. To invoke a
  callback is to run its body. This definition is not taken from the source; the pass of
  \<^verbatim>\<open>set\<close>, which is \<open>forEach\<close> above, is compared with it.
\<close>

fun notify_each :: "nat \<Rightarrow> (callback \<Rightarrow> ('k, 'v) prog) \<Rightarrow> callback list \<Rightarrow> ('k, 'v) store_data
                      \<Rightarrow> ('k, 'v) store_data option" where
  "notify_each n code [] st = Some st"
| "notify_each n code (c # cs) st =
     (case run n code (code c) (log_event (EvInvoke c) st) of
        None \<Rightarrow> None
      | Some st' \<Rightarrow> notify_each n code cs (log_event (EvReturn c) st'))"

subsection \<open>The accessor of one key\<close>

text \<open>
  \<^verbatim>\<open>useStore(key)\<close> reads the store from \<^verbatim>\<open>StoreContext\<close>, which was created with the
  default \<^verbatim>\<open>null\<close>; a \<^verbatim>\<open>Provider\<close> gives its descendants the object that
  \<^verbatim>\<open>useStoreData()\<close> returned, which is the store it holds. \<open>useContext\<close> takes the
  values of the enclosing providers, the innermost first. The hook throws \<^verbatim>\<open>new Error('Store not found')\<close>
  when the context value is \<^verbatim>\<open>null\<close>, and otherwise returns the pair of the snapshot
  and the setter \<^verbatim>\<open>(value) => store.set({ [key]: value })\<close>, a closure determined by
  the key.

  React's \<^verbatim>\<open>useSyncExternalStore(subscribe, getSnapshot, getServerSnapshot)\<close> is not
  code of this repository. By its documentation it returns \<^verbatim>\<open>getSnapshot()\<close> when it
  renders on the client and \<^verbatim>\<open>getServerSnapshot()\<close> when it renders on the server or
  hydrates, and it passes a callback of its own to \<^verbatim>\<open>subscribe\<close> once the component is
  mounted.
\<close>

datatype error = StoreNotFound

datatype render = OnClient | OnServer

datatype 'k setter = Setter 'k

definition useContext :: "'a \<Rightarrow> 'a list \<Rightarrow> 'a" where
  "useContext dflt providers = (case providers of [] \<Rightarrow> dflt | value # _ \<Rightarrow> value)"

definition Provider :: "('k, 'v) store_data \<Rightarrow> ('k, 'v) store_data option" where
  "Provider store = Some store"

definition getSnapshot :: "'k \<Rightarrow> ('k, 'v) store_data \<Rightarrow> 'v option" where
  "getSnapshot key store = get store key"

definition getServerSnapshot :: "('k \<rightharpoonup> 'v) \<Rightarrow> 'k \<Rightarrow> 'v option" where
  "getServerSnapshot initialState key = initialState key"

definition useSyncExternalStore :: "render \<Rightarrow> 'a \<Rightarrow> 'a \<Rightarrow> 'a" where
  "useSyncExternalStore r snapshot serverSnapshot =
     (case r of OnClient \<Rightarrow> snapshot | OnServer \<Rightarrow> serverSnapshot)"

definition useStore ::
  "('k \<rightharpoonup> 'v) \<Rightarrow> render \<Rightarrow> 'k \<Rightarrow> ('k, 'v) store_data list \<Rightarrow> error + ('v option \<times> 'k setter)" where
  "useStore initialState r key providers =
     (case useContext None (map Provider providers) of
        None \<Rightarrow> Inl StoreNotFound
      | Some store \<Rightarrow>
          Inr (useSyncExternalStore r (getSnapshot key store) (getServerSnapshot initialState key),
               Setter key))"

fun call_setter :: "nat \<Rightarrow> (callback \<Rightarrow> ('k, 'v) prog) \<Rightarrow> 'k setter \<Rightarrow> 'v \<Rightarrow> ('k, 'v) store_data
                      \<Rightarrow> ('k, 'v) store_data option" where
  "call_setter n code (Setter key) value st = set_store n code [key \<mapsto> value] st"

subsection \<open>Reading the history\<close>

text \<open>
  The events a call has added to the history, and what they say: the objects merged, the
  callbacks invoked, the object that the merges leave behind, and the callbacks that the
  calls of \<^verbatim>\<open>subscribe\<close> and of the functions it returned leave in the Set.
\<close>

definition events_since :: "('k, 'v) store_data \<Rightarrow> ('k, 'v) store_data \<Rightarrow> ('k, 'v) event list" where
  "events_since st st' = drop (length (history st)) (history st')"

fun merged :: "('k, 'v) event list \<Rightarrow> ('k \<rightharpoonup> 'v) list" where
  "merged [] = []"
| "merged (EvSet v # es) = v # merged es"
| "merged (e # es) = merged es"

fun invoked :: "('k, 'v) event list \<Rightarrow> callback list" where
  "invoked [] = []"
| "invoked (EvInvoke c # es) = c # invoked es"
| "invoked (e # es) = invoked es"

text \<open>
  The callbacks invoked at depth 0 of a history that starts at depth \<open>k\<close>: the
  invocations that a notification pass makes itself, without those made by the passes of
  the calls of \<^verbatim>\<open>set\<close> inside its callbacks.
\<close>

fun notified :: "nat \<Rightarrow> ('k, 'v) event list \<Rightarrow> callback list" where
  "notified k [] = []"
| "notified k (EvInvoke c # es) = (if k = 0 then [c] else []) @ notified (Suc k) es"
| "notified k (EvReturn c # es) = notified (k - 1) es"
| "notified k (e # es) = notified k es"

fun replay :: "('k \<rightharpoonup> 'v) \<Rightarrow> ('k, 'v) event list \<Rightarrow> ('k \<rightharpoonup> 'v)" where
  "replay s [] = s"
| "replay s (EvSet v # es) = replay (s ++ v) es"
| "replay s (e # es) = replay s es"

fun subs_after :: "callback set \<Rightarrow> ('k, 'v) event list \<Rightarrow> callback set" where
  "subs_after S [] = S"
| "subs_after S (EvSubscribe c # es) = subs_after (insert c S) es"
| "subs_after S (EvUnsubscribe c # es) = subs_after (S - {c}) es"
| "subs_after S (e # es) = subs_after S es"

text \<open>Every \<^verbatim>\<open>get()\<close> in the history returned the object that the merges before it made.\<close>

fun reads_latest :: "('k \<rightharpoonup> 'v) \<Rightarrow> ('k, 'v) event list \<Rightarrow> bool" where
  "reads_latest s [] = True"
| "reads_latest s (EvSet v # es) = reads_latest (s ++ v) es"
| "reads_latest s (EvGet obj # es) = (obj = s \<and> reads_latest s es)"
| "reads_latest s (e # es) = reads_latest s es"

text \<open>Every callback in the history was in the Set when it was invoked.\<close>

fun invokes_subscribed :: "callback set \<Rightarrow> ('k, 'v) event list \<Rightarrow> bool" where
  "invokes_subscribed S [] = True"
| "invokes_subscribed S (EvSubscribe c # es) = invokes_subscribed (insert c S) es"
| "invokes_subscribed S (EvUnsubscribe c # es) = invokes_subscribed (S - {c}) es"
| "invokes_subscribed S (EvInvoke c # es) = (c \<in> S \<and> invokes_subscribed S es)"
| "invokes_subscribed S (e # es) = invokes_subscribed S es"

text \<open>
  An event that leaves the Set \<open>S\<close> as it is: \<^verbatim>\<open>add\<close> of an element, \<^verbatim>\<open>delete\<close> of a
  value that is not one, or any call that is neither.
\<close>

fun leaves_set :: "callback set \<Rightarrow> ('k, 'v) event \<Rightarrow> bool" where
  "leaves_set S (EvSubscribe c) = (c \<in> S)"
| "leaves_set S (EvUnsubscribe c) = (c \<notin> S)"
| "leaves_set S e = True"

fun elements :: "set_data \<Rightarrow> callback list" where
  "elements [] = []"
| "elements (None # es) = elements es"
| "elements (Some c # es) = c # elements es"

text \<open>
  A callback body that, started on the object \<open>s\<close>, only calls \<^verbatim>\<open>get()\<close> and returns:
  what the callback of \<^verbatim>\<open>useSyncExternalStore\<close> does when it compares snapshots.
\<close>

primrec reads_only :: "('k, 'v) prog \<Rightarrow> ('k \<rightharpoonup> 'v) \<Rightarrow> bool" where
  "reads_only Return s = True"
| "reads_only (CallGet f) s = reads_only (f s) s"
| "reads_only (CallSet v p) s = False"
| "reads_only (CallSubscribe c p) s = False"
| "reads_only (CallUnsubscribe c p) s = False"

text \<open>\<^verbatim>\<open>set({ [k]: v })\<close> followed by \<^verbatim>\<open>get()[k]\<close>, and the same through one binding.\<close>

definition set_then_get ::
  "nat \<Rightarrow> (callback \<Rightarrow> ('k, 'v) prog) \<Rightarrow> 'k \<Rightarrow> 'v \<Rightarrow> ('k, 'v) store_data \<Rightarrow> 'v option option" where
  "set_then_get n code k v st =
     (case set_store n code [k \<mapsto> v] st of None \<Rightarrow> None | Some st' \<Rightarrow> Some (get st' k))"

definition setValue_then_readValue ::
  "nat \<Rightarrow> (callback \<Rightarrow> ('k, 'v) prog) \<Rightarrow> 'k \<Rightarrow> 'v \<Rightarrow> ('k, 'v) store_data \<Rightarrow> 'v option option" where
  "setValue_then_readValue n code key v st =
     (case call_setter n code (Setter key) v st of
        None \<Rightarrow> None
      | Some st' \<Rightarrow> Some (getSnapshot key st'))"

subsection \<open>Relations between the state before and after a call\<close>

definition follows :: "('k, 'v) store_data \<Rightarrow> ('k, 'v) store_data \<Rightarrow> bool" where
  "follows st st' \<longleftrightarrow>
     (\<exists>d. history st' = history st @ d
        \<and> store_current st' = replay (store_current st) d
        \<and> reads_latest (store_current st) d
        \<and> (set_ok (subscribers_current st) \<longrightarrow>
             set_ok (subscribers_current st')
           \<and> members (subscribers_current st') = subs_after (members (subscribers_current st)) d
           \<and> invokes_subscribed (members (subscribers_current st)) d))"

definition keeps_entries :: "('k, 'v) store_data \<Rightarrow> ('k, 'v) store_data \<Rightarrow> bool" where
  "keeps_entries st st' \<longleftrightarrow>
     (\<exists>d. history st' = history st @ d
        \<and> length (subscribers_current st) \<le> length (subscribers_current st')
        \<and> (\<forall>j < length (subscribers_current st).
              subscribers_current st' ! j = subscribers_current st ! j
            \<or> (subscribers_current st' ! j = None
               \<and> (\<exists>c. subscribers_current st ! j = Some c \<and> EvUnsubscribe c \<in> set d))))"

text \<open>
  What a call adds to the history is balanced: every invocation in it is followed by its
  return, so the call adds nothing at depth 0 to a history that is inside a callback.
\<close>

definition balanced :: "('k, 'v) store_data \<Rightarrow> ('k, 'v) store_data \<Rightarrow> bool" where
  "balanced st st' \<longleftrightarrow>
     (\<exists>d. history st' = history st @ d
        \<and> (\<forall>k es. notified (Suc k) (d @ es) = notified (Suc k) es))"

text \<open>While the calls made leave the Set as it is, its list is the same afterwards.\<close>

definition same_list :: "('k, 'v) store_data \<Rightarrow> ('k, 'v) store_data \<Rightarrow> bool" where
  "same_list st st' \<longleftrightarrow>
     (\<exists>d. history st' = history st @ d
        \<and> (list_all (leaves_set (members (subscribers_current st))) d \<longrightarrow>
             subscribers_current st' = subscribers_current st))"

subsection \<open>The application of the repository\<close>

text \<open>
  \<^verbatim>\<open>AppContext.tsx\<close> calls \<^verbatim>\<open>createFastContext({ first: "", last: "", count: 0 })\<close>.
  The callbacks below are the ones the examples use: \<open>code_readers\<close> are callbacks that
  read the store and return; in \<open>code_unsubscriber\<close> callback 0 calls the function that
  \<^verbatim>\<open>subscribe\<close> returned for callback 1; in \<open>code_rewriter\<close> every callback sets
  \<^verbatim>\<open>count\<close> to 2 when it finds it at 1; in \<open>code_renamer\<close> every callback sets
  \<^verbatim>\<open>first\<close> to \<^verbatim>\<open>"Bob"\<close> when it finds \<^verbatim>\<open>"Ada"\<close> there; in \<open>code_counter\<close>
  every callback sets \<^verbatim>\<open>count\<close> to 1 when it finds \<^verbatim>\<open>"Ada"\<close> in \<^verbatim>\<open>first\<close> and 0
  in \<^verbatim>\<open>count\<close>; in \<open>code_markers\<close> callback 0 sets \<^verbatim>\<open>first\<close>, and every other
  callback sets \<^verbatim>\<open>last\<close>, to \<^verbatim>\<open>"seen"\<close> unless it is there already.
\<close>

datatype jsval = JStr string | JNum int

definition initialState :: "string \<rightharpoonup> jsval" where
  "initialState = [''first'' \<mapsto> JStr [], ''last'' \<mapsto> JStr [], ''count'' \<mapsto> JNum 0]"

definition code_readers :: "callback \<Rightarrow> (string, jsval) prog" where
  "code_readers c = CallGet (\<lambda>s. Return)"

definition code_unsubscriber :: "callback \<Rightarrow> (string, jsval) prog" where
  "code_unsubscriber c = (if c = 0 then CallUnsubscribe 1 Return else CallGet (\<lambda>s. Return))"

definition code_rewriter :: "callback \<Rightarrow> (string, jsval) prog" where
  "code_rewriter c =
     CallGet (\<lambda>s. if s ''count'' = Some (JNum 1)
                   then CallSet [''count'' \<mapsto> JNum 2] Return else Return)"

definition code_renamer :: "callback \<Rightarrow> (string, jsval) prog" where
  "code_renamer c =
     CallGet (\<lambda>s. if s ''first'' = Some (JStr ''Ada'')
                   then CallSet [''first'' \<mapsto> JStr ''Bob''] Return else Return)"

definition code_counter :: "callback \<Rightarrow> (string, jsval) prog" where
  "code_counter c =
     CallGet (\<lambda>s. if s ''first'' = Some (JStr ''Ada'') \<and> s ''count'' = Some (JNum 0)
                   then CallSet [''count'' \<mapsto> JNum 1] Return else Return)"

definition code_markers :: "callback \<Rightarrow> (string, jsval) prog" where
  "code_markers c =
     CallGet (\<lambda>s. if c = 0
                   then (if s ''first'' = Some (JStr ''seen'') then Return
                         else CallSet [''first'' \<mapsto> JStr ''seen''] Return)
                   else (if s ''last'' = Some (JStr ''seen'') then Return
                         else CallSet [''last'' \<mapsto> JStr ''seen''] Return))"

definition one_subscriber :: "(string, jsval) store_data" where
  "one_subscriber = snd (subscribe 0 (useStoreData initialState))"

definition two_subscribers :: "(string, jsval) store_data" where
  "two_subscribers = snd (subscribe 1 (snd (subscribe 0 (useStoreData initialState))))"

definition three_subscribers :: "(string, jsval) store_data" where
  "three_subscribers = snd (subscribe 2 two_subscribers)"

section \<open>Properties of the Set and of the history\<close>

lemma set_add_present: "Some c \<in> set es \<Longrightarrow> set_add c es = es"
  by (induction es) auto

lemma set_add_absent: "Some c \<notin> set es \<Longrightarrow> set_add c es = es @ [Some c]"
  by (induction es) auto

lemma set_delete_absent: "Some c \<notin> set es \<Longrightarrow> set_delete c es = (False, es)"
  by (induction es) auto

lemma set_delete_present: "Some c \<in> set es \<Longrightarrow> fst (set_delete c es)"
  by (induction es) auto

lemma length_set_delete: "length (snd (set_delete c es)) = length es"
  by (induction es) auto

lemma filter_set_delete:
  "filter (\<lambda>e. e \<noteq> None) (snd (set_delete c es)) = remove1 (Some c) (filter (\<lambda>e. e \<noteq> None) es)"
  by (induction es) auto

lemma members_filter: "members es = {c. Some c \<in> set (filter (\<lambda>e. e \<noteq> None) es)}"
  by (auto simp: members_def)

lemma members_set_add: "members (set_add c es) = insert c (members es)"
  by (cases "Some c \<in> set es") (auto simp: set_add_present set_add_absent members_def)

lemma set_add_keeps_ok: "set_ok es \<Longrightarrow> set_ok (set_add c es)"
  by (cases "Some c \<in> set es") (auto simp: set_add_present set_add_absent set_ok_def)

lemma members_set_delete: "set_ok es \<Longrightarrow> members (snd (set_delete c es)) = members es - {c}"
  unfolding members_filter filter_set_delete set_ok_def by auto

lemma set_delete_keeps_ok: "set_ok es \<Longrightarrow> set_ok (snd (set_delete c es))"
  unfolding filter_set_delete set_ok_def by simp

lemma set_add_nth: "j < length es \<Longrightarrow> set_add c es ! j = es ! j"
  by (cases "Some c \<in> set es") (auto simp: set_add_present set_add_absent nth_append)

lemma length_set_add: "length es \<le> length (set_add c es)"
  by (cases "Some c \<in> set es") (auto simp: set_add_present set_add_absent)

lemma set_delete_nth:
  "j < length es \<Longrightarrow> snd (set_delete c es) ! j = es ! j
     \<or> (snd (set_delete c es) ! j = None \<and> es ! j = Some c)"
proof (induction es arbitrary: j)
  case Nil
  then show ?case by simp
next
  case (Cons e es)
  then show ?case by (cases j) auto
qed

lemma set_elements: "set (elements es) = members es"
  by (induction es rule: elements.induct) (auto simp: members_def)

lemma elements_filter: "map Some (elements es) = filter (\<lambda>e. e \<noteq> None) es"
  by (induction es rule: elements.induct) auto

lemma distinct_elements: "set_ok es \<Longrightarrow> distinct (elements es)"
  unfolding set_ok_def elements_filter[symmetric] by (simp add: distinct_map)

lemma set_ok_later:
  assumes "set_ok es" and "i < length es" and "es ! i = Some c"
  shows "Some c \<notin> set (drop (Suc i) es)"
proof -
  have "es = take i es @ Some c # drop (Suc i) es"
    using assms(2,3) by (metis id_take_nth_drop)
  then have "filter (\<lambda>e. e \<noteq> None) es =
      filter (\<lambda>e. e \<noteq> None) (take i es) @ Some c # filter (\<lambda>e. e \<noteq> None) (drop (Suc i) es)"
    by (metis (mono_tags, lifting) filter.simps(2) filter_append option.distinct(1))
  then have "Some c \<notin> set (filter (\<lambda>e. e \<noteq> None) (drop (Suc i) es))"
    using assms(1) unfolding set_ok_def by (metis distinct.simps(2) distinct_append)
  then show ?thesis by simp
qed

lemma merged_append: "merged (d1 @ d2) = merged d1 @ merged d2"
  by (induction d1 rule: merged.induct) auto

lemma invoked_append: "invoked (d1 @ d2) = invoked d1 @ invoked d2"
  by (induction d1 rule: invoked.induct) auto

lemma replay_append: "replay s (d1 @ d2) = replay (replay s d1) d2"
  by (induction s d1 rule: replay.induct) auto

lemma subs_after_append: "subs_after S (d1 @ d2) = subs_after (subs_after S d1) d2"
  by (induction S d1 rule: subs_after.induct) auto

lemma reads_latest_append:
  "reads_latest s (d1 @ d2) \<longleftrightarrow> reads_latest s d1 \<and> reads_latest (replay s d1) d2"
  by (induction s d1 rule: reads_latest.induct) auto

lemma invokes_subscribed_append:
  "invokes_subscribed S (d1 @ d2) \<longleftrightarrow>
     invokes_subscribed S d1 \<and> invokes_subscribed (subs_after S d1) d2"
  by (induction S d1 rule: invokes_subscribed.induct) auto

lemma dom_replay: "dom s \<subseteq> dom (replay s d)"
  by (induction s d rule: replay.induct) auto

lemma replay_untouched: "list_all (\<lambda>w. k \<notin> dom w) (merged d) \<Longrightarrow> replay s d k = s k"
  by (induction s d rule: replay.induct) (auto simp: map_add_def split: option.splits)

lemma replay_no_merge: "merged d = [] \<Longrightarrow> replay s d = s"
  by (induction s d rule: replay.induct) auto

lemma reads_latest_at: "reads_latest s (pre @ EvGet obj # post) \<Longrightarrow> obj = replay s pre"
  by (simp add: reads_latest_append)

lemma not_invoked_while_absent:
  "invokes_subscribed S d \<Longrightarrow> c \<notin> S \<Longrightarrow> EvSubscribe c \<notin> set d \<Longrightarrow>
   c \<notin> set (invoked d) \<and> c \<notin> subs_after S d"
  by (induction S d rule: invokes_subscribed.induct) auto

lemma invoked_iff: "c \<in> set (invoked d) \<longleftrightarrow> EvInvoke c \<in> set d"
  by (induction d rule: invoked.induct) auto

lemma notified_invoked: "set (notified k d) \<subseteq> set (invoked d)"
  by (induction k d rule: notified.induct) auto

lemma count_list_distinct: "distinct xs \<Longrightarrow> x \<in> set xs \<Longrightarrow> count_list xs x = 1"
  by (induction xs) auto

section \<open>Properties of every call\<close>

text \<open>
  A relation that holds across each single step of \<open>run\<close>, \<open>forEach\<close> and
  \<open>set_store\<close>, that is reflexive and transitive, and that holds across the invocation
  of a callback when it holds across the callback's body, holds across every call that
  returns. \<^verbatim>\<open>forEach\<close> invokes only what it finds in the Set.
\<close>

lemma exec_rel:
  assumes refl: "\<And>st. R st st"
    and trans: "\<And>a b c. R a b \<Longrightarrow> R b c \<Longrightarrow> R a c"
    and rd: "\<And>st. R st (log_event (EvGet (get st)) st)"
    and asg: "\<And>v st. R st (assign v st)"
    and sub: "\<And>c st. R st (snd (subscribe c st))"
    and unsub: "\<And>c st. R st (snd (call_unsubscribe (Unsubscribe c) st))"
    and call: "\<And>c st st1. c \<in> members (subscribers_current st) \<Longrightarrow>
             R (log_event (EvInvoke c) st) st1 \<Longrightarrow> R st (log_event (EvReturn c) st1)"
  shows "(run n code p st = Some st' \<longrightarrow> R st st')
       \<and> (forEach n code i st = Some st' \<longrightarrow> R st st')
       \<and> (set_store n code v st = Some st' \<longrightarrow> R st st')"
proof (induction n arbitrary: p st st' i v)
  case 0
  show ?case by simp
next
  case (Suc n)
  have r: "run (Suc n) code p st = Some st' \<longrightarrow> R st st'"
  proof (cases p)
    case Return
    then show ?thesis using refl by simp
  next
    case (CallGet f)
    then show ?thesis using Suc rd trans by (auto; blast)
  next
    case (CallSet w q)
    then show ?thesis using Suc trans by (auto split: option.splits; blast)
  next
    case (CallSubscribe c q)
    then show ?thesis using Suc sub trans by (auto; blast)
  next
    case (CallUnsubscribe c q)
    then show ?thesis using Suc unsub[of st c] trans by (auto; blast)
  qed
  have f: "forEach (Suc n) code i st = Some st' \<longrightarrow> R st st'"
  proof (cases "i < length (subscribers_current st)")
    case False
    then show ?thesis using refl by simp
  next
    case True
    show ?thesis
    proof (cases "subscribers_current st ! i")
      case None
      then show ?thesis using True Suc by simp
    next
      case (Some c)
      then have m: "c \<in> members (subscribers_current st)"
        using True by (metis (mono_tags, lifting) members_def mem_Collect_eq nth_mem)
      show ?thesis
      proof
        assume "forEach (Suc n) code i st = Some st'"
        then obtain st1 where r1: "run n code (code c) (log_event (EvInvoke c) st) = Some st1"
          and f1: "forEach n code (Suc i) (log_event (EvReturn c) st1) = Some st'"
          using True Some by (auto split: option.splits)
        from r1 have "R (log_event (EvInvoke c) st) st1" using Suc by blast
        then have "R st (log_event (EvReturn c) st1)" by (rule call[OF m])
        moreover from f1 have "R (log_event (EvReturn c) st1) st'" using Suc by blast
        ultimately show "R st st'" by (rule trans)
      qed
    qed
  qed
  have s: "set_store (Suc n) code v st = Some st' \<longrightarrow> R st st'"
    using Suc asg trans by (auto; blast)
  from r f s show ?case by blast
qed

lemma follows_refl: "follows st st"
  by (simp add: follows_def)

lemma follows_trans: "follows a b \<Longrightarrow> follows b c \<Longrightarrow> follows a c"
  unfolding follows_def
  apply (elim exE conjE)
  subgoal for d1 d2
    apply (rule exI[of _ "d1 @ d2"])
    apply (auto simp add: replay_append subs_after_append reads_latest_append
        invokes_subscribed_append)
    done
  done

lemma run_follows:
  "(run n code p st = Some st' \<longrightarrow> follows st st')
   \<and> (forEach n code i st = Some st' \<longrightarrow> follows st st')
   \<and> (set_store n code v st = Some st' \<longrightarrow> follows st st')"
proof (rule exec_rel)
  show "\<And>st. follows st st" by (rule follows_refl)
  show "\<And>a b c. follows a b \<Longrightarrow> follows b c \<Longrightarrow> follows a c" by (rule follows_trans)
  show "\<And>st. follows st (log_event (EvGet (get st)) st)"
    by (simp add: follows_def log_event_def get_def)
  show "\<And>v st. follows st (assign v st)"
    by (simp add: follows_def assign_def)
  show "\<And>c st. follows st (snd (subscribe c st))"
    by (simp add: follows_def subscribe_def members_set_add set_add_keeps_ok)
  show "\<And>c st. follows st (snd (call_unsubscribe (Unsubscribe c) st))"
    by (simp add: follows_def members_set_delete set_delete_keeps_ok)
  show "follows st (log_event (EvReturn c) st1)"
    if m: "c \<in> members (subscribers_current st)" and f: "follows (log_event (EvInvoke c) st) st1"
    for c st st1
  proof -
    have "follows st (log_event (EvInvoke c) st)"
      using m by (simp add: follows_def log_event_def)
    moreover have "follows st1 (log_event (EvReturn c) st1)"
      by (simp add: follows_def log_event_def)
    ultimately show ?thesis using f follows_trans by blast
  qed
qed

lemma follows_events:
  assumes "follows st st'"
  shows "history st' = history st @ events_since st st'"
    and "store_current st' = replay (store_current st) (events_since st st')"
    and "reads_latest (store_current st) (events_since st st')"
    and "set_ok (subscribers_current st) \<Longrightarrow> set_ok (subscribers_current st')"
    and "set_ok (subscribers_current st) \<Longrightarrow>
         members (subscribers_current st') =
           subs_after (members (subscribers_current st)) (events_since st st')"
    and "set_ok (subscribers_current st) \<Longrightarrow>
         invokes_subscribed (members (subscribers_current st)) (events_since st st')"
proof -
  from assms obtain d where h: "history st' = history st @ d"
    and r: "store_current st' = replay (store_current st) d"
    and l: "reads_latest (store_current st) d"
    and k: "set_ok (subscribers_current st) \<longrightarrow>
             set_ok (subscribers_current st')
           \<and> members (subscribers_current st') = subs_after (members (subscribers_current st)) d
           \<and> invokes_subscribed (members (subscribers_current st)) d"
    unfolding follows_def by blast
  have d: "events_since st st' = d" using h by (simp add: events_since_def)
  show "history st' = history st @ events_since st st'" using h d by simp
  show "store_current st' = replay (store_current st) (events_since st st')" using r d by simp
  show "reads_latest (store_current st) (events_since st st')" using l d by simp
  show "set_ok (subscribers_current st) \<Longrightarrow> set_ok (subscribers_current st')"
    using k by simp
  show "set_ok (subscribers_current st) \<Longrightarrow>
         members (subscribers_current st') =
           subs_after (members (subscribers_current st)) (events_since st st')"
    using k d by simp
  show "set_ok (subscribers_current st) \<Longrightarrow>
         invokes_subscribed (members (subscribers_current st)) (events_since st st')"
    using k d by simp
qed

lemma run_does_follow: "run n code p st = Some st' \<Longrightarrow> follows st st'"
  using run_follows[of n code p st st' 0 "store_current st"] by simp

lemma forEach_does_follow: "forEach n code i st = Some st' \<Longrightarrow> follows st st'"
  using run_follows[of n code Return st st' i "store_current st"] by simp

lemma set_store_does_follow: "set_store n code v st = Some st' \<Longrightarrow> follows st st'"
  using run_follows[of n code Return st st' 0 v] by simp

lemma run_history:
  "run n code p st = Some st' \<Longrightarrow> \<exists>d. history st' = history st @ d"
  using run_does_follow follows_events(1) by blast

lemma forEach_history:
  "forEach n code i st = Some st' \<Longrightarrow> \<exists>d. history st' = history st @ d"
  using forEach_does_follow follows_events(1) by blast

lemma set_store_history:
  "set_store n code v st = Some st' \<Longrightarrow> \<exists>d. history st' = history st @ d"
  using set_store_does_follow follows_events(1) by blast

lemma set_store_events:
  assumes "set_store n code v st = Some st'"
  shows "events_since st st' = EvSet v # events_since (assign v st) st'"
proof -
  from assms obtain m where m: "n = Suc m" by (cases n) auto
  with assms have "forEach m code 0 (assign v st) = Some st'" by simp
  then obtain d where "history st' = history (assign v st) @ d"
    using forEach_history by blast
  then show ?thesis by (simp add: events_since_def assign_def)
qed

lemma set_store_forEach:
  "set_store n code v st = Some st' \<Longrightarrow> \<exists>m. n = Suc m \<and> forEach m code 0 (assign v st) = Some st'"
  by (cases n) auto

text \<open>
  An entry of the Set's list stays where it is until \<^verbatim>\<open>delete\<close> overwrites it, so
  \<^verbatim>\<open>forEach\<close> reaches every entry that is ahead of its index.
\<close>

lemma keeps_entries_refl: "keeps_entries st st"
  by (simp add: keeps_entries_def)

lemma keeps_entries_trans:
  assumes "keeps_entries a b" and "keeps_entries b c"
  shows "keeps_entries a c"
proof -
  from assms(1) obtain d1 where
    h1: "history b = history a @ d1" and
    l1: "length (subscribers_current a) \<le> length (subscribers_current b)" and
    e1: "\<forall>j < length (subscribers_current a).
              subscribers_current b ! j = subscribers_current a ! j
            \<or> (subscribers_current b ! j = None
               \<and> (\<exists>c. subscribers_current a ! j = Some c \<and> EvUnsubscribe c \<in> set d1))"
    unfolding keeps_entries_def by blast
  from assms(2) obtain d2 where
    h2: "history c = history b @ d2" and
    l2: "length (subscribers_current b) \<le> length (subscribers_current c)" and
    e2: "\<forall>j < length (subscribers_current b).
              subscribers_current c ! j = subscribers_current b ! j
            \<or> (subscribers_current c ! j = None
               \<and> (\<exists>c'. subscribers_current b ! j = Some c' \<and> EvUnsubscribe c' \<in> set d2))"
    unfolding keeps_entries_def by blast
  have "history c = history a @ (d1 @ d2)" using h1 h2 by simp
  moreover have "length (subscribers_current a) \<le> length (subscribers_current c)"
    using l1 l2 by simp
  moreover have "\<forall>j < length (subscribers_current a).
              subscribers_current c ! j = subscribers_current a ! j
            \<or> (subscribers_current c ! j = None
               \<and> (\<exists>c'. subscribers_current a ! j = Some c' \<and> EvUnsubscribe c' \<in> set (d1 @ d2)))"
  proof (intro allI impI)
    fix j assume j: "j < length (subscribers_current a)"
    then have jb: "j < length (subscribers_current b)" using l1 by simp
    from e1 j e2 jb show "subscribers_current c ! j = subscribers_current a ! j
            \<or> (subscribers_current c ! j = None
               \<and> (\<exists>c'. subscribers_current a ! j = Some c' \<and> EvUnsubscribe c' \<in> set (d1 @ d2)))"
      by (metis Un_iff set_append option.distinct(1))
  qed
  ultimately show ?thesis unfolding keeps_entries_def by blast
qed

lemma run_keeps_entries:
  "(run n code p st = Some st' \<longrightarrow> keeps_entries st st')
   \<and> (forEach n code i st = Some st' \<longrightarrow> keeps_entries st st')
   \<and> (set_store n code v st = Some st' \<longrightarrow> keeps_entries st st')"
proof (rule exec_rel)
  show "\<And>st. keeps_entries st st" by (rule keeps_entries_refl)
  show "\<And>a b c. keeps_entries a b \<Longrightarrow> keeps_entries b c \<Longrightarrow> keeps_entries a c"
    by (rule keeps_entries_trans)
  show "\<And>st. keeps_entries st (log_event (EvGet (get st)) st)"
    by (simp add: keeps_entries_def log_event_def)
  show "\<And>v st. keeps_entries st (assign v st)"
    by (simp add: keeps_entries_def assign_def)
  show "\<And>c st. keeps_entries st (snd (subscribe c st))"
    by (simp add: keeps_entries_def subscribe_def set_add_nth length_set_add)
  show "\<And>c st. keeps_entries st (snd (call_unsubscribe (Unsubscribe c) st))"
    using set_delete_nth by (fastforce simp add: keeps_entries_def length_set_delete)
  show "keeps_entries st (log_event (EvReturn c) st1)"
    if f: "keeps_entries (log_event (EvInvoke c) st) st1" for c st st1
  proof -
    have "keeps_entries st (log_event (EvInvoke c) st)"
      by (simp add: keeps_entries_def log_event_def)
    moreover have "keeps_entries st1 (log_event (EvReturn c) st1)"
      by (simp add: keeps_entries_def log_event_def)
    ultimately show ?thesis using f keeps_entries_trans by blast
  qed
qed

lemma run_does_keep: "run n code p st = Some st' \<Longrightarrow> keeps_entries st st'"
  using run_keeps_entries[of n code p st st' 0 "store_current st"] by simp

lemma balanced_refl: "balanced st st"
  by (simp add: balanced_def)

lemma balanced_trans: "balanced a b \<Longrightarrow> balanced b c \<Longrightarrow> balanced a c"
  unfolding balanced_def
  apply (elim exE conjE)
  subgoal for d1 d2
    apply (rule exI[of _ "d1 @ d2"])
    apply simp
    done
  done

lemma run_balanced:
  "(run n code p st = Some st' \<longrightarrow> balanced st st')
   \<and> (forEach n code i st = Some st' \<longrightarrow> balanced st st')
   \<and> (set_store n code v st = Some st' \<longrightarrow> balanced st st')"
proof (rule exec_rel)
  show "\<And>st. balanced st st" by (rule balanced_refl)
  show "\<And>a b c. balanced a b \<Longrightarrow> balanced b c \<Longrightarrow> balanced a c" by (rule balanced_trans)
  show "\<And>st. balanced st (log_event (EvGet (get st)) st)"
    by (simp add: balanced_def log_event_def)
  show "\<And>v st. balanced st (assign v st)"
    by (simp add: balanced_def assign_def)
  show "\<And>c st. balanced st (snd (subscribe c st))"
    by (simp add: balanced_def subscribe_def)
  show "\<And>c st. balanced st (snd (call_unsubscribe (Unsubscribe c) st))"
    by (simp add: balanced_def)
  show "balanced st (log_event (EvReturn c) st1)"
    if f: "balanced (log_event (EvInvoke c) st) st1" for c st st1
  proof -
    from f obtain d where h: "history st1 = history (log_event (EvInvoke c) st) @ d"
      and b: "\<forall>k es. notified (Suc k) (d @ es) = notified (Suc k) es"
      unfolding balanced_def by blast
    have "history (log_event (EvReturn c) st1) = history st @ (EvInvoke c # d @ [EvReturn c])"
      using h by (simp add: log_event_def)
    moreover have "notified (Suc k) ((EvInvoke c # d @ [EvReturn c]) @ es) = notified (Suc k) es"
      for k es
      using b by simp
    ultimately show ?thesis unfolding balanced_def by blast
  qed
qed

lemma run_is_balanced:
  assumes "run n code p st = Some st'" and "history st' = history st @ d"
  shows "notified (Suc k) (d @ es) = notified (Suc k) es"
proof -
  have "balanced st st'"
    using run_balanced[of n code p st st' 0 "store_current st"] assms(1) by simp
  then show ?thesis using assms(2) unfolding balanced_def by auto
qed

text \<open>
  An entry of the Set's list stays where it is until \<^verbatim>\<open>delete\<close> overwrites it, so the
  pass reaches, and itself invokes, every entry that is ahead of its index and is not deleted.
\<close>

lemma forEach_covers:
  "forEach n code i st = Some st' \<Longrightarrow> history st' = history st @ d \<Longrightarrow>
   i \<le> j \<Longrightarrow> j < length (subscribers_current st) \<Longrightarrow> subscribers_current st ! j = Some c \<Longrightarrow>
   c \<in> set (notified 0 d) \<or> EvUnsubscribe c \<in> set d"
proof (induction n arbitrary: i st d)
  case 0
  then show ?case by simp
next
  case (Suc n)
  from Suc.prems have i: "i < length (subscribers_current st)" by simp
  show ?case
  proof (cases "subscribers_current st ! i")
    case None
    then have "j \<noteq> i" using Suc.prems by auto
    then have "Suc i \<le> j" using Suc.prems by simp
    moreover have "forEach n code (Suc i) st = Some st'" using Suc.prems(1) i None by simp
    ultimately show ?thesis using Suc.IH Suc.prems by blast
  next
    case (Some ci)
    let ?st0 = "log_event (EvInvoke ci) st"
    from Suc.prems(1) i Some obtain st1 where
      r: "run n code (code ci) ?st0 = Some st1"
      and f: "forEach n code (Suc i) (log_event (EvReturn ci) st1) = Some st'"
      by (auto split: option.splits)
    let ?st2 = "log_event (EvReturn ci) st1"
    from r have k: "keeps_entries ?st0 st1" by (rule run_does_keep)
    then obtain d1 where h1: "history st1 = history ?st0 @ d1"
      and l1: "length (subscribers_current ?st0) \<le> length (subscribers_current st1)"
      and e1: "\<forall>j < length (subscribers_current ?st0).
              subscribers_current st1 ! j = subscribers_current ?st0 ! j
            \<or> (subscribers_current st1 ! j = None
               \<and> (\<exists>c. subscribers_current ?st0 ! j = Some c \<and> EvUnsubscribe c \<in> set d1))"
      unfolding keeps_entries_def by blast
    from f obtain d2 where h2: "history st' = history ?st2 @ d2"
      using forEach_history by blast
    have d: "d = EvInvoke ci # d1 @ EvReturn ci # d2"
      using h1 h2 Suc.prems(2) by (simp add: log_event_def)
    have "notified (Suc 0) (d1 @ EvReturn ci # d2) = notified (Suc 0) (EvReturn ci # d2)"
      using run_is_balanced[OF r h1] .
    then have nd: "notified 0 d = ci # notified 0 d2" using d by simp
    show ?thesis
    proof (cases "j = i")
      case True
      then show ?thesis using nd Some Suc.prems by simp
    next
      case False
      then have ji: "Suc i \<le> j" using Suc.prems by simp
      have jl: "j < length (subscribers_current ?st0)" using Suc.prems by (simp add: log_event_def)
      from e1 jl have "subscribers_current st1 ! j = Some c \<or> EvUnsubscribe c \<in> set d1"
        using Suc.prems(5) by (auto simp: log_event_def)
      then show ?thesis
      proof
        assume "EvUnsubscribe c \<in> set d1"
        then show ?thesis using d by simp
      next
        assume "subscribers_current st1 ! j = Some c"
        then have a: "subscribers_current ?st2 ! j = Some c" by (simp add: log_event_def)
        have "j < length (subscribers_current ?st2)" using jl l1 by (simp add: log_event_def)
        from Suc.IH[OF f h2 ji this a] show ?thesis using d nd by auto
      qed
    qed
  qed
qed

lemma set_store_covers:
  assumes "set_store n code v st = Some st'" and "c \<in> members (subscribers_current st)"
  shows "c \<in> set (notified 0 (events_since st st')) \<or> EvUnsubscribe c \<in> set (events_since st st')"
proof -
  from assms(1) obtain m where f: "forEach m code 0 (assign v st) = Some st'"
    using set_store_forEach by blast
  then have h: "history st' = history (assign v st) @ events_since (assign v st) st'"
    using forEach_does_follow follows_events(1) by blast
  from assms(2) obtain j where j: "j < length (subscribers_current (assign v st))"
    and e: "subscribers_current (assign v st) ! j = Some c"
    by (auto simp: members_def assign_def in_set_conv_nth)
  from forEach_covers[OF f h _ j e]
  have "c \<in> set (notified 0 (events_since (assign v st) st'))
      \<or> EvUnsubscribe c \<in> set (events_since (assign v st) st')" by simp
  then show ?thesis using set_store_events[OF assms(1)] by auto
qed

text \<open>
  While no call changes the Set, every call of \<^verbatim>\<open>set\<close>, the outer one and those the
  callbacks make, invokes each element once.
\<close>

lemma run_counts:
  "(run n code p st = Some st' \<longrightarrow> set_ok (subscribers_current st) \<longrightarrow>
      history st' = history st @ d \<longrightarrow>
      (\<forall>e \<in> set d. leaves_set (members (subscribers_current st)) e) \<longrightarrow>
      subscribers_current st' = subscribers_current st
      \<and> (\<forall>x. count_list (invoked d) x =
             (if x \<in> members (subscribers_current st) then length (merged d) else 0)))
   \<and> (forEach n code i st = Some st' \<longrightarrow> set_ok (subscribers_current st) \<longrightarrow>
      history st' = history st @ d \<longrightarrow>
      (\<forall>e \<in> set d. leaves_set (members (subscribers_current st)) e) \<longrightarrow>
      subscribers_current st' = subscribers_current st
      \<and> (\<forall>x. count_list (invoked d) x =
             (if Some x \<in> set (drop i (subscribers_current st)) then 1 else 0)
           + (if x \<in> members (subscribers_current st) then length (merged d) else 0)))
   \<and> (set_store n code v st = Some st' \<longrightarrow> set_ok (subscribers_current st) \<longrightarrow>
      history st' = history st @ d \<longrightarrow>
      (\<forall>e \<in> set d. leaves_set (members (subscribers_current st)) e) \<longrightarrow>
      subscribers_current st' = subscribers_current st
      \<and> (\<forall>x. count_list (invoked d) x =
             (if x \<in> members (subscribers_current st) then length (merged d) else 0)))"
proof (induction n arbitrary: p st st' i v d)
  case 0
  show ?case by simp
next
  case (Suc n)
  let ?S = "members (subscribers_current st)"
  note IHrun = Suc.IH[THEN conjunct1, THEN mp, THEN mp, THEN mp, THEN mp]
  note IHfor = Suc.IH[THEN conjunct2, THEN conjunct1, THEN mp, THEN mp, THEN mp, THEN mp]
  note IHset = Suc.IH[THEN conjunct2, THEN conjunct2, THEN mp, THEN mp, THEN mp, THEN mp]
  have r: "subscribers_current st' = subscribers_current st
      \<and> (\<forall>x. count_list (invoked d) x = (if x \<in> ?S then length (merged d) else 0))"
    if a: "run (Suc n) code p st = Some st'" and ok: "set_ok (subscribers_current st)"
      and h: "history st' = history st @ d" and q: "\<forall>e \<in> set d. leaves_set ?S e"
  proof (cases p)
    case Return
    then show ?thesis using a h by simp
  next
    case (CallGet f)
    let ?st0 = "log_event (EvGet (get st)) st"
    from a CallGet have r0: "run n code (f (get st)) ?st0 = Some st'" by simp
    then obtain d0 where h0: "history st' = history ?st0 @ d0" using run_history by blast
    then have d: "d = EvGet (get st) # d0" using h by (simp add: log_event_def)
    have "subscribers_current ?st0 = subscribers_current st" by (simp add: log_event_def)
    then show ?thesis using IHrun[OF r0 _ h0] ok q d by simp
  next
    case (CallSet w p')
    from a CallSet obtain st1 where s1: "set_store n code w st = Some st1"
      and r1: "run n code p' st1 = Some st'" by (auto split: option.splits)
    from s1 obtain d1 where h1: "history st1 = history st @ d1" using set_store_history by blast
    from r1 obtain d2 where h2: "history st' = history st1 @ d2" using run_history by blast
    have d: "d = d1 @ d2" using h h1 h2 by simp
    have q1: "\<forall>e \<in> set d1. leaves_set ?S e" using q d by simp
    from IHset[OF s1 ok h1 q1] have e1: "subscribers_current st1 = subscribers_current st"
      and c1: "\<And>x. count_list (invoked d1) x = (if x \<in> ?S then length (merged d1) else 0)"
      by auto
    have q2: "\<forall>e \<in> set d2. leaves_set (members (subscribers_current st1)) e" using q d e1 by simp
    from IHrun[OF r1 _ h2 q2] ok e1 have e2: "subscribers_current st' = subscribers_current st"
      and c2: "\<And>x. count_list (invoked d2) x = (if x \<in> ?S then length (merged d2) else 0)"
      by auto
    show ?thesis using e2 c1 c2 d by (simp add: invoked_append merged_append)
  next
    case (CallSubscribe c p')
    let ?st0 = "snd (subscribe c st)"
    from a CallSubscribe have r0: "run n code p' ?st0 = Some st'" by simp
    then obtain d0 where h0: "history st' = history ?st0 @ d0" using run_history by blast
    then have d: "d = EvSubscribe c # d0" using h by (simp add: subscribe_def)
    then have "c \<in> ?S" using q by simp
    then have e0: "subscribers_current ?st0 = subscribers_current st"
      by (simp add: subscribe_def members_def set_add_present)
    then show ?thesis using IHrun[OF r0 _ h0] ok q d by simp
  next
    case (CallUnsubscribe c p')
    let ?st0 = "snd (call_unsubscribe (Unsubscribe c) st)"
    from a CallUnsubscribe have r0: "run n code p' ?st0 = Some st'" by simp
    then obtain d0 where h0: "history st' = history ?st0 @ d0" using run_history by blast
    then have d: "d = EvUnsubscribe c # d0" using h by simp
    then have "c \<notin> ?S" using q by simp
    then have e0: "subscribers_current ?st0 = subscribers_current st"
      by (simp add: members_def set_delete_absent)
    then show ?thesis using IHrun[OF r0 _ h0] ok q d by simp
  qed
  have f: "subscribers_current st' = subscribers_current st
      \<and> (\<forall>x. count_list (invoked d) x =
             (if Some x \<in> set (drop i (subscribers_current st)) then 1 else 0)
           + (if x \<in> ?S then length (merged d) else 0))"
    if a: "forEach (Suc n) code i st = Some st'" and ok: "set_ok (subscribers_current st)"
      and h: "history st' = history st @ d" and q: "\<forall>e \<in> set d. leaves_set ?S e"
  proof (cases "i < length (subscribers_current st)")
    case False
    then show ?thesis using a h by simp
  next
    case True
    then have dr: "drop i (subscribers_current st)
        = subscribers_current st ! i # drop (Suc i) (subscribers_current st)"
      by (simp add: Cons_nth_drop_Suc)
    show ?thesis
    proof (cases "subscribers_current st ! i")
      case None
      then have f0: "forEach n code (Suc i) st = Some st'" using a True by simp
      show ?thesis using IHfor[OF f0 ok h q] dr None by simp
    next
      case (Some ci)
      let ?st0 = "log_event (EvInvoke ci) st"
      from a True Some obtain st1 where r1: "run n code (code ci) ?st0 = Some st1"
        and f1: "forEach n code (Suc i) (log_event (EvReturn ci) st1) = Some st'"
        by (auto split: option.splits)
      let ?st2 = "log_event (EvReturn ci) st1"
      from r1 obtain d1 where h1: "history st1 = history ?st0 @ d1" using run_history by blast
      from f1 obtain d2 where h2: "history st' = history ?st2 @ d2" using forEach_history by blast
      have d: "d = EvInvoke ci # d1 @ EvReturn ci # d2" using h h1 h2 by (simp add: log_event_def)
      have s0: "subscribers_current ?st0 = subscribers_current st" by (simp add: log_event_def)
      have q1: "\<forall>e \<in> set d1. leaves_set (members (subscribers_current ?st0)) e"
        using q d s0 by simp
      from IHrun[OF r1 _ h1 q1] ok s0 have e1: "subscribers_current ?st2 = subscribers_current st"
        and c1: "\<And>x. count_list (invoked d1) x = (if x \<in> ?S then length (merged d1) else 0)"
        by (auto simp: log_event_def)
      have q2: "\<forall>e \<in> set d2. leaves_set (members (subscribers_current ?st2)) e"
        using q d e1 by simp
      from IHfor[OF f1 _ h2 q2] ok e1 have e2: "subscribers_current st' = subscribers_current st"
        and c2: "\<And>x. count_list (invoked d2) x =
             (if Some x \<in> set (drop (Suc i) (subscribers_current st)) then 1 else 0)
           + (if x \<in> ?S then length (merged d2) else 0)"
        by auto
      have later: "Some ci \<notin> set (drop (Suc i) (subscribers_current st))"
        using set_ok_later[OF ok True Some] .
      have "count_list (invoked d) x =
             (if Some x \<in> set (drop i (subscribers_current st)) then 1 else 0)
           + (if x \<in> ?S then length (merged d) else 0)" for x
        using c1[of x] c2[of x] later d dr Some
        by (auto simp: invoked_append merged_append)
      then show ?thesis using e2 by blast
    qed
  qed
  have s: "subscribers_current st' = subscribers_current st
      \<and> (\<forall>x. count_list (invoked d) x = (if x \<in> ?S then length (merged d) else 0))"
    if a: "set_store (Suc n) code v st = Some st'" and ok: "set_ok (subscribers_current st)"
      and h: "history st' = history st @ d" and q: "\<forall>e \<in> set d. leaves_set ?S e"
  proof -
    let ?st0 = "assign v st"
    from a have f0: "forEach n code 0 ?st0 = Some st'" by simp
    then obtain d0 where h0: "history st' = history ?st0 @ d0" using forEach_history by blast
    have d: "d = EvSet v # d0" using h h0 by (simp add: assign_def)
    have s0: "subscribers_current ?st0 = subscribers_current st" by (simp add: assign_def)
    have q0: "\<forall>e \<in> set d0. leaves_set (members (subscribers_current ?st0)) e"
      using q d s0 by simp
    from IHfor[OF f0 _ h0 q0] ok s0 have e: "subscribers_current st' = subscribers_current st"
      and c: "\<And>x. count_list (invoked d0) x =
             (if Some x \<in> set (drop 0 (subscribers_current st)) then 1 else 0)
           + (if x \<in> ?S then length (merged d0) else 0)"
      by auto
    show ?thesis using e c d by (auto simp: members_def)
  qed
  from r f s show ?case by blast
qed

lemma set_store_counts:
  assumes "set_store n code v st = Some st'"
    and "set_ok (subscribers_current st)"
    and "list_all (leaves_set (members (subscribers_current st))) (events_since st st')"
    and "c \<in> members (subscribers_current st)"
  shows "count_list (invoked (events_since st st')) c = length (merged (events_since st st'))"
proof -
  have h: "history st' = history st @ events_since st st'"
    using set_store_does_follow[OF assms(1)] by (rule follows_events(1))
  have q: "\<forall>e \<in> set (events_since st st'). leaves_set (members (subscribers_current st)) e"
    using assms(3) by (simp add: list_all_iff)
  from run_counts[of n code Return st st' "events_since st st'" 0 v] assms(1,2,4) h q
  show ?thesis by simp
qed

lemma run_unchanged:
  assumes "run n code p st = Some st'" and "set_ok (subscribers_current st)"
    and "history st' = history st @ d"
    and "\<forall>e \<in> set d. leaves_set (members (subscribers_current st)) e"
  shows "subscribers_current st' = subscribers_current st"
  using run_counts[of n code p st st' d 0 "store_current st"] assms by simp

text \<open>The pass of a call invokes each element once itself.\<close>

lemma forEach_notifies_once:
  "forEach n code i st = Some st' \<Longrightarrow> set_ok (subscribers_current st) \<Longrightarrow>
   history st' = history st @ d \<Longrightarrow>
   \<forall>e \<in> set d. leaves_set (members (subscribers_current st)) e \<Longrightarrow>
   count_list (notified 0 d) x = (if Some x \<in> set (drop i (subscribers_current st)) then 1 else 0)"
proof (induction n arbitrary: i st d)
  case 0
  then show ?case by simp
next
  case (Suc n)
  show ?case
  proof (cases "i < length (subscribers_current st)")
    case False
    then show ?thesis using Suc.prems by simp
  next
    case True
    then have dr: "drop i (subscribers_current st)
        = subscribers_current st ! i # drop (Suc i) (subscribers_current st)"
      by (simp add: Cons_nth_drop_Suc)
    show ?thesis
    proof (cases "subscribers_current st ! i")
      case None
      then have "forEach n code (Suc i) st = Some st'" using Suc.prems(1) True by simp
      from Suc.IH[OF this Suc.prems(2,3,4)] show ?thesis using dr None by simp
    next
      case (Some ci)
      let ?st0 = "log_event (EvInvoke ci) st"
      from Suc.prems(1) True Some obtain st1 where r1: "run n code (code ci) ?st0 = Some st1"
        and f1: "forEach n code (Suc i) (log_event (EvReturn ci) st1) = Some st'"
        by (auto split: option.splits)
      let ?st2 = "log_event (EvReturn ci) st1"
      from r1 obtain d1 where h1: "history st1 = history ?st0 @ d1" using run_history by blast
      from f1 obtain d2 where h2: "history st' = history ?st2 @ d2" using forEach_history by blast
      have d: "d = EvInvoke ci # d1 @ EvReturn ci # d2"
        using Suc.prems(3) h1 h2 by (simp add: log_event_def)
      have s0: "subscribers_current ?st0 = subscribers_current st" by (simp add: log_event_def)
      have q1: "\<forall>e \<in> set d1. leaves_set (members (subscribers_current ?st0)) e"
        using Suc.prems(4) d s0 by simp
      have "subscribers_current st1 = subscribers_current ?st0"
        using run_unchanged[OF r1 _ h1 q1] Suc.prems(2) s0 by simp
      then have e1: "subscribers_current ?st2 = subscribers_current st"
        using s0 by (simp add: log_event_def)
      have q2: "\<forall>e \<in> set d2. leaves_set (members (subscribers_current ?st2)) e"
        using Suc.prems(4) d e1 by simp
      have c2: "count_list (notified 0 d2) x =
          (if Some x \<in> set (drop (Suc i) (subscribers_current st)) then 1 else 0)"
        using Suc.IH[OF f1 _ h2 q2] Suc.prems(2) e1 by simp
      have "notified (Suc 0) (d1 @ EvReturn ci # d2) = notified (Suc 0) (EvReturn ci # d2)"
        using run_is_balanced[OF r1 h1] .
      then have nd: "notified 0 d = ci # notified 0 d2" using d by simp
      have later: "Some ci \<notin> set (drop (Suc i) (subscribers_current st))"
        using set_ok_later[OF Suc.prems(2) True Some] .
      show ?thesis using nd c2 later dr Some by auto
    qed
  qed
qed

lemma set_store_notifies_once:
  assumes "set_store n code v st = Some st'"
    and "set_ok (subscribers_current st)"
    and "list_all (leaves_set (members (subscribers_current st))) (events_since st st')"
    and "c \<in> members (subscribers_current st)"
  shows "count_list (notified 0 (events_since st st')) c = 1"
proof -
  from assms(1) obtain m where f: "forEach m code 0 (assign v st) = Some st'"
    using set_store_forEach by blast
  then have h: "history st' = history (assign v st) @ events_since (assign v st) st'"
    using forEach_does_follow follows_events(1) by blast
  have e: "events_since st st' = EvSet v # events_since (assign v st) st'"
    using assms(1) by (rule set_store_events)
  have s0: "subscribers_current (assign v st) = subscribers_current st" by (simp add: assign_def)
  have q: "\<forall>e \<in> set (events_since (assign v st) st').
      leaves_set (members (subscribers_current (assign v st))) e"
    using assms(3) e s0 by (simp add: list_all_iff)
  from forEach_notifies_once[OF f _ h q, of c] assms(2,4) s0 e
  show ?thesis by (simp add: members_def)
qed

section \<open>Calls that return\<close>

text \<open>A call that returns within a bound returns the same within every larger bound.\<close>

lemma run_mono:
  "n \<le> m \<Longrightarrow>
   (run n code p st = Some st' \<longrightarrow> run m code p st = Some st')
   \<and> (forEach n code i st = Some st' \<longrightarrow> forEach m code i st = Some st')
   \<and> (set_store n code v st = Some st' \<longrightarrow> set_store m code v st = Some st')"
proof (induction n arbitrary: m p st st' i v)
  case 0
  show ?case by simp
next
  case (Suc n)
  then obtain m' where m: "m = Suc m'" and le: "n \<le> m'" by (cases m) auto
  note IH = Suc.IH[OF le]
  have r: "run (Suc n) code p st = Some st' \<longrightarrow> run (Suc m') code p st = Some st'"
  proof (cases p)
    case (CallSet w q)
    then show ?thesis using IH by (auto split: option.splits)
  qed (use IH in auto)
  have f: "forEach (Suc n) code i st = Some st' \<longrightarrow> forEach (Suc m') code i st = Some st'"
    using IH by (auto split: option.splits)
  have s: "set_store (Suc n) code v st = Some st' \<longrightarrow> set_store (Suc m') code v st = Some st'"
    using IH by auto
  from r f s m show ?case by blast
qed

lemma run_more_fuel:
  "run n code p st = Some st' \<Longrightarrow> n \<le> m \<Longrightarrow> run m code p st = Some st'"
  using run_mono[of n m code p st st' 0 "store_current st"] by simp

lemma forEach_more_fuel:
  "forEach n code i st = Some st' \<Longrightarrow> n \<le> m \<Longrightarrow> forEach m code i st = Some st'"
  using run_mono[of n m code Return st st' i "store_current st"] by simp

lemma set_store_more_fuel:
  "set_store n code v st = Some st' \<Longrightarrow> n \<le> m \<Longrightarrow> set_store m code v st = Some st'"
  using run_mono[of n m code Return st st' 0 v] by simp

text \<open>
  Callbacks that only read the store return, and so does the \<^verbatim>\<open>set\<close> that invokes
  them; the events of such a call are its own merge, the invocations and the reads.
\<close>

lemma reader_returns:
  "reads_only p (store_current st) \<Longrightarrow>
   \<exists>n st' d. run n code p st = Some st'
          \<and> history st' = history st @ d
          \<and> (\<forall>e \<in> set d. \<exists>obj. e = EvGet obj)
          \<and> store_current st' = store_current st
          \<and> subscribers_current st' = subscribers_current st"
proof (induction p arbitrary: st)
  case Return
  have "run (Suc 0) code Return st = Some st \<and> history st = history st @ []" by simp
  then show ?case by fastforce
next
  case (CallGet f)
  let ?st0 = "log_event (EvGet (get st)) st"
  have "reads_only (f (get st)) (store_current ?st0)"
    using CallGet.prems by (simp add: get_def log_event_def)
  from CallGet.IH[OF _ this] obtain n st' d where
    "run n code (f (get st)) ?st0 = Some st'" "history st' = history ?st0 @ d"
    "\<forall>e \<in> set d. \<exists>obj. e = EvGet obj" "store_current st' = store_current ?st0"
    "subscribers_current st' = subscribers_current ?st0" by blast
  then have "run (Suc n) code (CallGet f) st = Some st'
          \<and> history st' = history st @ (EvGet (get st) # d)
          \<and> (\<forall>e \<in> set (EvGet (get st) # d). \<exists>obj. e = EvGet obj)
          \<and> store_current st' = store_current st
          \<and> subscribers_current st' = subscribers_current st"
    by (simp add: log_event_def)
  then show ?case by blast
qed simp_all

lemma forEach_readers_return:
  assumes "\<forall>c. Some c \<in> set (drop i (subscribers_current st)) \<longrightarrow>
             reads_only (code c) (store_current st)"
  shows "\<exists>n st' d. forEach n code i st = Some st'
          \<and> history st' = history st @ d
          \<and> (\<forall>e \<in> set d. (\<exists>obj. e = EvGet obj) \<or> (\<exists>c. e = EvInvoke c) \<or> (\<exists>c. e = EvReturn c))
          \<and> store_current st' = store_current st
          \<and> subscribers_current st' = subscribers_current st"
  using assms
proof (induction "length (subscribers_current st) - i" arbitrary: i st)
  case 0
  then have "forEach (Suc 0) code i st = Some st \<and> history st = history st @ []" by simp
  then show ?case by fastforce
next
  case (Suc k)
  then have i: "i < length (subscribers_current st)" by simp
  then have dr: "drop i (subscribers_current st)
        = subscribers_current st ! i # drop (Suc i) (subscribers_current st)"
    by (simp add: Cons_nth_drop_Suc)
  show ?case
  proof (cases "subscribers_current st ! i")
    case None
    have "k = length (subscribers_current st) - Suc i" using Suc.hyps(2) by simp
    from Suc.hyps(1)[OF this] Suc.prems dr obtain n st' d where
      "forEach n code (Suc i) st = Some st'" "history st' = history st @ d"
      "\<forall>e \<in> set d. (\<exists>obj. e = EvGet obj) \<or> (\<exists>c. e = EvInvoke c) \<or> (\<exists>c. e = EvReturn c)"
      "store_current st' = store_current st"
      "subscribers_current st' = subscribers_current st" by auto
    then have "forEach (Suc n) code i st = Some st' \<and> history st' = history st @ d
          \<and> (\<forall>e \<in> set d. (\<exists>obj. e = EvGet obj) \<or> (\<exists>c. e = EvInvoke c) \<or> (\<exists>c. e = EvReturn c))
          \<and> store_current st' = store_current st
          \<and> subscribers_current st' = subscribers_current st" using i None by simp
    then show ?thesis by blast
  next
    case (Some c)
    let ?st0 = "log_event (EvInvoke c) st"
    have "reads_only (code c) (store_current ?st0)"
      using Suc.prems dr Some by (simp add: log_event_def)
    from reader_returns[OF this, of code] obtain n1 st1 d1 where
      r1: "run n1 code (code c) ?st0 = Some st1" and h10: "history st1 = history ?st0 @ d1"
      and g1: "\<forall>e \<in> set d1. \<exists>obj. e = EvGet obj"
      and s10: "store_current st1 = store_current ?st0"
      and u10: "subscribers_current st1 = subscribers_current ?st0"
      by blast
    let ?st2 = "log_event (EvReturn c) st1"
    have s1: "store_current ?st2 = store_current st" using s10 by (simp add: log_event_def)
    have u1: "subscribers_current ?st2 = subscribers_current st" using u10 by (simp add: log_event_def)
    have "k = length (subscribers_current ?st2) - Suc i" using Suc.hyps(2) u1 by simp
    moreover have "\<forall>c. Some c \<in> set (drop (Suc i) (subscribers_current ?st2)) \<longrightarrow>
             reads_only (code c) (store_current ?st2)"
      using Suc.prems dr s1 u1 by simp
    ultimately obtain n2 st' d2 where f2: "forEach n2 code (Suc i) ?st2 = Some st'"
      and h2: "history st' = history ?st2 @ d2"
      and g2: "\<forall>e \<in> set d2. (\<exists>obj. e = EvGet obj) \<or> (\<exists>c. e = EvInvoke c) \<or> (\<exists>c. e = EvReturn c)"
      and s2: "store_current st' = store_current ?st2"
      and u2: "subscribers_current st' = subscribers_current ?st2"
      using Suc.hyps(1) by blast
    have "run (max n1 n2) code (code c) ?st0 = Some st1"
      using run_more_fuel[OF r1] by simp
    moreover have "forEach (max n1 n2) code (Suc i) ?st2 = Some st'"
      using forEach_more_fuel[OF f2] by simp
    ultimately have "forEach (Suc (max n1 n2)) code i st = Some st'"
      using i Some by simp
    moreover have "history st' = history st @ (EvInvoke c # d1 @ EvReturn c # d2)"
      using h10 h2 by (simp add: log_event_def)
    moreover have "\<forall>e \<in> set (EvInvoke c # d1 @ EvReturn c # d2).
        (\<exists>obj. e = EvGet obj) \<or> (\<exists>c. e = EvInvoke c) \<or> (\<exists>c. e = EvReturn c)"
      using g1 g2 by auto
    ultimately show ?thesis using s1 s2 u1 u2 by metis
  qed
qed

lemma quiet_events:
  "\<forall>e \<in> set d. (\<exists>obj. e = EvGet obj) \<or> (\<exists>c. e = EvInvoke c) \<or> (\<exists>c. e = EvReturn c) \<Longrightarrow>
   merged d = [] \<and> list_all (leaves_set S) d"
  by (induction d) auto

lemma set_store_readers_return:
  assumes "list_all (\<lambda>c. reads_only (code c) (get st ++ v)) (elements (subscribers_current st))"
  shows "\<exists>n st'. set_store n code v st = Some st'
          \<and> get st' = get st ++ v
          \<and> subscribers_current st' = subscribers_current st
          \<and> merged (events_since st st') = [v]
          \<and> list_all (leaves_set S) (events_since st st')"
proof -
  have "\<forall>c. Some c \<in> set (drop 0 (subscribers_current (assign v st))) \<longrightarrow>
             reads_only (code c) (store_current (assign v st))"
    using assms set_elements[of "subscribers_current st"]
    by (auto simp: assign_def members_def get_def list_all_iff)
  from forEach_readers_return[OF this] obtain n st' d where
    f: "forEach n code 0 (assign v st) = Some st'"
    and h: "history st' = history (assign v st) @ d"
    and g: "\<forall>e \<in> set d. (\<exists>obj. e = EvGet obj) \<or> (\<exists>c. e = EvInvoke c) \<or> (\<exists>c. e = EvReturn c)"
    and s: "store_current st' = store_current (assign v st)"
    and u: "subscribers_current st' = subscribers_current (assign v st)" by blast
  have e: "events_since st st' = EvSet v # d"
    using h by (simp add: events_since_def assign_def)
  have "set_store (Suc n) code v st = Some st'" using f by simp
  moreover have "get st' = get st ++ v" using s by (simp add: assign_def get_def)
  moreover have "subscribers_current st' = subscribers_current st" using u by (simp add: assign_def)
  moreover have "merged (events_since st st') = [v]" using e quiet_events[OF g] by simp
  moreover have "list_all (leaves_set S) (events_since st st')"
    using e quiet_events[OF g, of S] by simp
  ultimately show ?thesis by blast
qed

section \<open>The pass runs the bodies of the callbacks\<close>

text \<open>
  While the calls made leave the Set as it is, the pass of \<^verbatim>\<open>forEach\<close> is the
  notification of the specification over the elements of the Set: it runs the body of
  each element, one after the other, and returns the state that the last one leaves.
\<close>

lemma notify_each_more_fuel:
  "notify_each n code cs st = Some st' \<Longrightarrow> n \<le> m \<Longrightarrow> notify_each m code cs st = Some st'"
proof (induction cs arbitrary: st)
  case Nil
  then show ?case by simp
next
  case (Cons c cs)
  from Cons.prems(1) obtain st1 where
    r: "run n code (code c) (log_event (EvInvoke c) st) = Some st1"
    and f: "notify_each n code cs (log_event (EvReturn c) st1) = Some st'"
    by (auto split: option.splits)
  from r Cons.prems(2) have "run m code (code c) (log_event (EvInvoke c) st) = Some st1"
    by (rule run_more_fuel)
  moreover from f Cons.prems(2) have "notify_each m code cs (log_event (EvReturn c) st1) = Some st'"
    by (rule Cons.IH)
  ultimately show ?case by simp
qed

lemma same_list_refl: "same_list st st"
  by (simp add: same_list_def)

lemma same_list_trans: "same_list a b \<Longrightarrow> same_list b c \<Longrightarrow> same_list a c"
  unfolding same_list_def
  apply (elim exE conjE)
  subgoal for d1 d2
    apply (rule exI[of _ "d1 @ d2"])
    apply simp
    done
  done

lemma run_same_list:
  "(run n code p st = Some st' \<longrightarrow> same_list st st')
   \<and> (forEach n code i st = Some st' \<longrightarrow> same_list st st')
   \<and> (set_store n code v st = Some st' \<longrightarrow> same_list st st')"
proof (rule exec_rel)
  show "\<And>st. same_list st st" by (rule same_list_refl)
  show "\<And>a b c. same_list a b \<Longrightarrow> same_list b c \<Longrightarrow> same_list a c" by (rule same_list_trans)
  show "\<And>st. same_list st (log_event (EvGet (get st)) st)"
    by (simp add: same_list_def log_event_def)
  show "\<And>v st. same_list st (assign v st)"
    by (simp add: same_list_def assign_def)
  show "\<And>c st. same_list st (snd (subscribe c st))"
    by (simp add: same_list_def subscribe_def members_def set_add_present)
  show "\<And>c st. same_list st (snd (call_unsubscribe (Unsubscribe c) st))"
    by (simp add: same_list_def members_def set_delete_absent)
  show "same_list st (log_event (EvReturn c) st1)"
    if f: "same_list (log_event (EvInvoke c) st) st1" for c st st1
  proof -
    from f obtain d where h: "history st1 = history (log_event (EvInvoke c) st) @ d"
      and b: "list_all (leaves_set (members (subscribers_current (log_event (EvInvoke c) st)))) d
          \<longrightarrow> subscribers_current st1 = subscribers_current (log_event (EvInvoke c) st)"
      unfolding same_list_def by blast
    have "history (log_event (EvReturn c) st1) = history st @ (EvInvoke c # d @ [EvReturn c])"
      using h by (simp add: log_event_def)
    moreover have "list_all (leaves_set (members (subscribers_current st))) (EvInvoke c # d @ [EvReturn c])
       \<longrightarrow> subscribers_current (log_event (EvReturn c) st1) = subscribers_current st"
      using b by (simp add: log_event_def)
    ultimately show ?thesis unfolding same_list_def by blast
  qed
qed

lemma run_keeps_list:
  assumes "run n code p st = Some st'" and "history st' = history st @ d"
    and "list_all (leaves_set (members (subscribers_current st))) d"
  shows "subscribers_current st' = subscribers_current st"
proof -
  have "same_list st st'"
    using run_same_list[of n code p st st' 0 "store_current st"] assms(1) by simp
  then show ?thesis using assms(2,3) unfolding same_list_def by auto
qed

lemma forEach_is_notify_each:
  "forEach n code i st = Some st' \<Longrightarrow> history st' = history st @ d \<Longrightarrow>
   list_all (leaves_set (members (subscribers_current st))) d \<Longrightarrow>
   notify_each n code (elements (drop i (subscribers_current st))) st = Some st'"
proof (induction n arbitrary: i st d)
  case 0
  then show ?case by simp
next
  case (Suc n)
  show ?case
  proof (cases "i < length (subscribers_current st)")
    case False
    then show ?thesis using Suc.prems(1) by simp
  next
    case True
    then have dr: "drop i (subscribers_current st)
        = subscribers_current st ! i # drop (Suc i) (subscribers_current st)"
      by (simp add: Cons_nth_drop_Suc)
    show ?thesis
    proof (cases "subscribers_current st ! i")
      case None
      then have "forEach n code (Suc i) st = Some st'" using Suc.prems(1) True by simp
      from Suc.IH[OF this Suc.prems(2,3)]
      have "notify_each (Suc n) code (elements (drop (Suc i) (subscribers_current st))) st = Some st'"
        by (rule notify_each_more_fuel) simp
      then show ?thesis using dr None by simp
    next
      case (Some c)
      let ?st0 = "log_event (EvInvoke c) st"
      from Suc.prems(1) True Some obtain st1 where
        r: "run n code (code c) ?st0 = Some st1"
        and f: "forEach n code (Suc i) (log_event (EvReturn c) st1) = Some st'"
        by (auto split: option.splits)
      let ?st2 = "log_event (EvReturn c) st1"
      from r obtain d1 where h1: "history st1 = history ?st0 @ d1"
        using run_history by blast
      from f obtain d2 where h2: "history st' = history ?st2 @ d2"
        using forEach_history by blast
      have d: "d = EvInvoke c # d1 @ EvReturn c # d2"
        using h1 h2 Suc.prems(2) by (simp add: log_event_def)
      have s0: "subscribers_current ?st0 = subscribers_current st" by (simp add: log_event_def)
      have "list_all (leaves_set (members (subscribers_current ?st0))) d1"
        using Suc.prems(3) d s0 by simp
      from run_keeps_list[OF r h1 this]
      have s2: "subscribers_current ?st2 = subscribers_current st"
        using s0 by (simp add: log_event_def)
      have "list_all (leaves_set (members (subscribers_current ?st2))) d2"
        using Suc.prems(3) d s2 by simp
      from Suc.IH[OF f h2 this]
      have "notify_each (Suc n) code (elements (drop (Suc i) (subscribers_current st))) ?st2 = Some st'"
        using s2 notify_each_more_fuel by fastforce
      moreover have "run (Suc n) code (code c) ?st0 = Some st1"
        using r by (rule run_more_fuel) simp
      ultimately show ?thesis using dr Some by simp
    qed
  qed
qed

lemma set_store_is_notify_each:
  assumes "set_store n code v st = Some st'"
    and "list_all (leaves_set (members (subscribers_current st))) (events_since st st')"
  shows "notify_each n code (elements (subscribers_current st)) (assign v st) = Some st'"
proof -
  from assms(1) obtain m where n: "n = Suc m" and f: "forEach m code 0 (assign v st) = Some st'"
    using set_store_forEach by blast
  then have h: "history st' = history (assign v st) @ events_since (assign v st) st'"
    using forEach_does_follow follows_events(1) by blast
  have s: "subscribers_current (assign v st) = subscribers_current st" by (simp add: assign_def)
  have "list_all (leaves_set (members (subscribers_current (assign v st))))
          (events_since (assign v st) st')"
    using assms(2) set_store_events[OF assms(1)] s by simp
  from forEach_is_notify_each[OF f h this]
  have "notify_each m code (elements (subscribers_current st)) (assign v st) = Some st'"
    using s by simp
  from notify_each_more_fuel[OF this, of n] n show ?thesis by simp
qed

text \<open>
  In every pass, an element that is ahead of the index and is not unsubscribed is invoked
  by the pass itself: at some state that the pass has reached, the body of the element is
  run, and the pass goes on from the state that the body returns.
\<close>

lemma follows_call:
  assumes "c \<in> members (subscribers_current st)" and "follows (log_event (EvInvoke c) st) st1"
  shows "follows st (log_event (EvReturn c) st1)"
proof -
  have "follows st (log_event (EvInvoke c) st)"
    using assms(1) by (simp add: follows_def log_event_def)
  moreover have "follows st1 (log_event (EvReturn c) st1)"
    by (simp add: follows_def log_event_def)
  ultimately show ?thesis using assms(2) follows_trans by blast
qed

lemma forEach_runs_body:
  "forEach n code i st = Some st' \<Longrightarrow> history st' = history st @ d \<Longrightarrow>
   i \<le> j \<Longrightarrow> j < length (subscribers_current st) \<Longrightarrow> subscribers_current st ! j = Some c \<Longrightarrow>
   EvUnsubscribe c \<notin> set d \<Longrightarrow>
   \<exists>sa sb pre. follows st sa \<and> history sa = history st @ pre
      \<and> (\<forall>es. notified 0 (pre @ es) = notified 0 pre @ notified 0 es)
      \<and> run n code (code c) (log_event (EvInvoke c) sa) = Some sb
      \<and> follows (log_event (EvReturn c) sb) st'"
proof (induction n arbitrary: i st d)
  case 0
  then show ?case by simp
next
  case (Suc n)
  from Suc.prems have i: "i < length (subscribers_current st)" by simp
  show ?case
  proof (cases "subscribers_current st ! i")
    case None
    then have "j \<noteq> i" using Suc.prems by auto
    then have ji: "Suc i \<le> j" using Suc.prems by simp
    have f: "forEach n code (Suc i) st = Some st'" using Suc.prems(1) i None by simp
    from Suc.IH[OF f Suc.prems(2) ji Suc.prems(4,5,6)]
    obtain sa sb pre where a: "follows st sa" "history sa = history st @ pre"
      "\<forall>es. notified 0 (pre @ es) = notified 0 pre @ notified 0 es"
      "follows (log_event (EvReturn c) sb) st'"
      and r: "run n code (code c) (log_event (EvInvoke c) sa) = Some sb"
      by blast
    from r have r': "run (Suc n) code (code c) (log_event (EvInvoke c) sa) = Some sb"
      by (rule run_more_fuel) simp
    show ?thesis
    proof (intro exI conjI)
      show "follows st sa" by (rule a(1))
      show "history sa = history st @ pre" by (rule a(2))
      show "\<forall>es. notified 0 (pre @ es) = notified 0 pre @ notified 0 es" by (rule a(3))
      show "run (Suc n) code (code c) (log_event (EvInvoke c) sa) = Some sb" by (rule r')
      show "follows (log_event (EvReturn c) sb) st'" by (rule a(4))
    qed
  next
    case (Some ci)
    let ?st0 = "log_event (EvInvoke ci) st"
    from Suc.prems(1) i Some obtain st1 where
      r: "run n code (code ci) ?st0 = Some st1"
      and f: "forEach n code (Suc i) (log_event (EvReturn ci) st1) = Some st'"
      by (auto split: option.splits)
    let ?st2 = "log_event (EvReturn ci) st1"
    from r have r': "run (Suc n) code (code ci) ?st0 = Some st1"
      by (rule run_more_fuel) simp
    from r have k: "keeps_entries ?st0 st1" by (rule run_does_keep)
    then obtain d1 where h1: "history st1 = history ?st0 @ d1"
      and l1: "length (subscribers_current ?st0) \<le> length (subscribers_current st1)"
      and e1: "\<forall>j < length (subscribers_current ?st0).
              subscribers_current st1 ! j = subscribers_current ?st0 ! j
            \<or> (subscribers_current st1 ! j = None
               \<and> (\<exists>c. subscribers_current ?st0 ! j = Some c \<and> EvUnsubscribe c \<in> set d1))"
      unfolding keeps_entries_def by blast
    from f have f2: "follows ?st2 st'" by (rule forEach_does_follow)
    then obtain d2 where h2: "history st' = history ?st2 @ d2"
      using follows_events(1) by blast
    have d: "d = EvInvoke ci # d1 @ EvReturn ci # d2"
      using h1 h2 Suc.prems(2) by (simp add: log_event_def)
    show ?thesis
    proof (cases "j = i")
      case True
      then have c: "ci = c" using Some Suc.prems(5) by simp
      show ?thesis
      proof (intro exI conjI)
        show "follows st st" by (rule follows_refl)
        show "history st = history st @ []" by simp
        show "\<forall>es. notified 0 ([] @ es) = notified 0 [] @ notified 0 es" by simp
        show "run (Suc n) code (code c) (log_event (EvInvoke c) st) = Some st1"
          using r' c by simp
        show "follows (log_event (EvReturn c) st1) st'" using f2 c by simp
      qed
    next
      case False
      then have ji: "Suc i \<le> j" using Suc.prems by simp
      have jl: "j < length (subscribers_current ?st0)" using Suc.prems by (simp add: log_event_def)
      from e1 jl have "subscribers_current st1 ! j = Some c \<or> EvUnsubscribe c \<in> set d1"
        using Suc.prems(5) by (auto simp: log_event_def)
      then have "subscribers_current st1 ! j = Some c" using Suc.prems(6) d by auto
      then have a: "subscribers_current ?st2 ! j = Some c" by (simp add: log_event_def)
      have jl2: "j < length (subscribers_current ?st2)" using jl l1 by (simp add: log_event_def)
      have u2: "EvUnsubscribe c \<notin> set d2" using Suc.prems(6) d by simp
      from Suc.IH[OF f h2 ji jl2 a u2]
      obtain sa sb pre where fa: "follows ?st2 sa" and ha: "history sa = history ?st2 @ pre"
        and na: "\<forall>es. notified 0 (pre @ es) = notified 0 pre @ notified 0 es"
        and fb: "follows (log_event (EvReturn c) sb) st'"
        and rb: "run n code (code c) (log_event (EvInvoke c) sa) = Some sb"
        by blast
      have mi: "ci \<in> members (subscribers_current st)"
        using i Some by (metis (mono_tags, lifting) members_def mem_Collect_eq nth_mem)
      have "follows st ?st2" using mi run_does_follow[OF r] by (rule follows_call)
      then have f1: "follows st sa" using fa by (rule follows_trans)
      let ?pre = "EvInvoke ci # d1 @ EvReturn ci # pre"
      have h: "history sa = history st @ ?pre" using ha h1 by (simp add: log_event_def)
      have b: "notified (Suc 0) (d1 @ es) = notified (Suc 0) es" for es
        using run_is_balanced[OF r h1] .
      have "notified 0 (?pre @ es) = notified 0 ?pre @ notified 0 es" for es
        using b[of "EvReturn ci # pre @ es"] b[of "EvReturn ci # pre"] na by simp
      then have n: "\<forall>es. notified 0 (?pre @ es) = notified 0 ?pre @ notified 0 es" by blast
      from rb have rb': "run (Suc n) code (code c) (log_event (EvInvoke c) sa) = Some sb"
        by (rule run_more_fuel) simp
      show ?thesis
      proof (intro exI conjI)
        show "follows st sa" by (rule f1)
        show "history sa = history st @ ?pre" by (rule h)
        show "\<forall>es. notified 0 (?pre @ es) = notified 0 ?pre @ notified 0 es" by (rule n)
        show "run (Suc n) code (code c) (log_event (EvInvoke c) sa) = Some sb" by (rule rb')
        show "follows (log_event (EvReturn c) sb) st'" by (rule fb)
      qed
    qed
  qed
qed

lemma set_store_runs_body:
  assumes "set_store n code v st = Some st'" and "c \<in> members (subscribers_current st)"
    and "EvUnsubscribe c \<notin> set (events_since st st')"
  shows "\<exists>sa sb. follows (assign v st) sa
      \<and> notified 0 (events_since st sa @ [EvInvoke c]) = notified 0 (events_since st sa) @ [c]
      \<and> run n code (code c) (log_event (EvInvoke c) sa) = Some sb
      \<and> follows (log_event (EvReturn c) sb) st'"
proof -
  from assms(1) obtain m where n: "n = Suc m" and f: "forEach m code 0 (assign v st) = Some st'"
    using set_store_forEach by blast
  then have h: "history st' = history (assign v st) @ events_since (assign v st) st'"
    using forEach_does_follow follows_events(1) by blast
  from assms(2) obtain j where j: "j < length (subscribers_current (assign v st))"
    and e: "subscribers_current (assign v st) ! j = Some c"
    by (auto simp: members_def assign_def in_set_conv_nth)
  have u: "EvUnsubscribe c \<notin> set (events_since (assign v st) st')"
    using assms(3) set_store_events[OF assms(1)] by simp
  from forEach_runs_body[OF f h _ j e u]
  obtain sa sb pre where fa: "follows (assign v st) sa"
    and ha: "history sa = history (assign v st) @ pre"
    and na: "\<forall>es. notified 0 (pre @ es) = notified 0 pre @ notified 0 es"
    and rb: "run m code (code c) (log_event (EvInvoke c) sa) = Some sb"
    and fb: "follows (log_event (EvReturn c) sb) st'"
    by blast
  have es: "events_since st sa = EvSet v # pre"
    using ha by (simp add: events_since_def assign_def)
  show ?thesis
  proof (intro exI conjI)
    show "follows (assign v st) sa" by (rule fa)
    show "notified 0 (events_since st sa @ [EvInvoke c]) = notified 0 (events_since st sa) @ [c]"
      using na es by simp
    show "run n code (code c) (log_event (EvInvoke c) sa) = Some sb"
      using run_more_fuel[OF rb, of n] n by simp
    show "follows (log_event (EvReturn c) sb) st'" by (rule fb)
  qed
qed

text \<open>
  A callback that is not in the Set, and is not subscribed again, is not run: the calls
  return the same state whatever the body of that callback is.
\<close>

lemma follows_absent:
  assumes "follows st st1" and "set_ok (subscribers_current st)"
    and "c \<notin> members (subscribers_current st)"
    and "history st1 = history st @ d" and "EvSubscribe c \<notin> set d"
  shows "set_ok (subscribers_current st1)" and "c \<notin> members (subscribers_current st1)"
proof -
  have e: "events_since st st1 = d" using assms(4) by (simp add: events_since_def)
  show "set_ok (subscribers_current st1)" using assms(1,2) by (rule follows_events(4))
  have "invokes_subscribed (members (subscribers_current st)) d"
    using follows_events(6)[OF assms(1,2)] e by simp
  from not_invoked_while_absent[OF this assms(3,5)]
  show "c \<notin> members (subscribers_current st1)"
    using follows_events(5)[OF assms(1,2)] e by simp
qed

lemma run_without:
  assumes eq: "\<And>x. x \<noteq> c \<Longrightarrow> code' x = code x"
  shows "(run n code p st = Some st' \<longrightarrow> set_ok (subscribers_current st) \<longrightarrow>
      c \<notin> members (subscribers_current st) \<longrightarrow>
      history st' = history st @ d \<longrightarrow> EvSubscribe c \<notin> set d \<longrightarrow>
      run n code' p st = Some st')
   \<and> (forEach n code i st = Some st' \<longrightarrow> set_ok (subscribers_current st) \<longrightarrow>
      c \<notin> members (subscribers_current st) \<longrightarrow>
      history st' = history st @ d \<longrightarrow> EvSubscribe c \<notin> set d \<longrightarrow>
      forEach n code' i st = Some st')
   \<and> (set_store n code v st = Some st' \<longrightarrow> set_ok (subscribers_current st) \<longrightarrow>
      c \<notin> members (subscribers_current st) \<longrightarrow>
      history st' = history st @ d \<longrightarrow> EvSubscribe c \<notin> set d \<longrightarrow>
      set_store n code' v st = Some st')"
proof (induction n arbitrary: p st st' i v d)
  case 0
  show ?case by simp
next
  case (Suc n)
  note IHrun = Suc.IH[THEN conjunct1, THEN mp, THEN mp, THEN mp, THEN mp, THEN mp]
  note IHfor = Suc.IH[THEN conjunct2, THEN conjunct1, THEN mp, THEN mp, THEN mp, THEN mp, THEN mp]
  note IHset = Suc.IH[THEN conjunct2, THEN conjunct2, THEN mp, THEN mp, THEN mp, THEN mp, THEN mp]
  have r: "run (Suc n) code' p st = Some st'"
    if a: "run (Suc n) code p st = Some st'" and ok: "set_ok (subscribers_current st)"
      and m: "c \<notin> members (subscribers_current st)"
      and h: "history st' = history st @ d" and q: "EvSubscribe c \<notin> set d"
  proof (cases p)
    case Return
    then show ?thesis using a by simp
  next
    case (CallGet f)
    let ?st0 = "log_event (EvGet (get st)) st"
    from a CallGet have r0: "run n code (f (get st)) ?st0 = Some st'" by simp
    then obtain d0 where h0: "history st' = history ?st0 @ d0" using run_history by blast
    then have d: "d = EvGet (get st) # d0" using h by (simp add: log_event_def)
    have s0: "subscribers_current ?st0 = subscribers_current st" by (simp add: log_event_def)
    have "run n code' (f (get st)) ?st0 = Some st'"
      using IHrun[OF r0 _ _ h0] ok m q d s0 by simp
    then show ?thesis using CallGet by simp
  next
    case (CallSet w p')
    from a CallSet obtain st1 where s1: "set_store n code w st = Some st1"
      and r1: "run n code p' st1 = Some st'" by (auto split: option.splits)
    from s1 obtain d1 where h1: "history st1 = history st @ d1" using set_store_history by blast
    from r1 obtain d2 where h2: "history st' = history st1 @ d2" using run_history by blast
    have d: "d = d1 @ d2" using h h1 h2 by simp
    have q1: "EvSubscribe c \<notin> set d1" and q2: "EvSubscribe c \<notin> set d2" using q d by simp_all
    have a1: "set_store n code' w st = Some st1" using IHset[OF s1 ok m h1 q1] .
    note f1 = set_store_does_follow[OF s1]
    have ok1: "set_ok (subscribers_current st1)" using f1 ok m h1 q1 by (rule follows_absent(1))
    have m1: "c \<notin> members (subscribers_current st1)" using f1 ok m h1 q1 by (rule follows_absent(2))
    have "run n code' p' st1 = Some st'" using IHrun[OF r1 ok1 m1 h2 q2] .
    then show ?thesis using CallSet a1 by simp
  next
    case (CallSubscribe c' p')
    let ?st0 = "snd (subscribe c' st)"
    from a CallSubscribe have r0: "run n code p' ?st0 = Some st'" by simp
    then obtain d0 where h0: "history st' = history ?st0 @ d0" using run_history by blast
    then have d: "d = EvSubscribe c' # d0" using h by (simp add: subscribe_def)
    then have ne: "c' \<noteq> c" and q0: "EvSubscribe c \<notin> set d0" using q by auto
    have ok0: "set_ok (subscribers_current ?st0)"
      using ok by (simp add: subscribe_def set_add_keeps_ok)
    have m0: "c \<notin> members (subscribers_current ?st0)"
      using m ne by (simp add: subscribe_def members_set_add)
    have "run n code' p' ?st0 = Some st'" using IHrun[OF r0 ok0 m0 h0 q0] .
    then show ?thesis using CallSubscribe by simp
  next
    case (CallUnsubscribe c' p')
    let ?st0 = "snd (call_unsubscribe (Unsubscribe c') st)"
    from a CallUnsubscribe have r0: "run n code p' ?st0 = Some st'" by simp
    then obtain d0 where h0: "history st' = history ?st0 @ d0" using run_history by blast
    then have d: "d = EvUnsubscribe c' # d0" using h by simp
    then have q0: "EvSubscribe c \<notin> set d0" using q by auto
    have ok0: "set_ok (subscribers_current ?st0)"
      using ok by (simp add: set_delete_keeps_ok)
    have m0: "c \<notin> members (subscribers_current ?st0)"
      using m ok by (simp add: members_set_delete)
    have "run n code' p' ?st0 = Some st'" using IHrun[OF r0 ok0 m0 h0 q0] .
    then show ?thesis using CallUnsubscribe by simp
  qed
  have f: "forEach (Suc n) code' i st = Some st'"
    if a: "forEach (Suc n) code i st = Some st'" and ok: "set_ok (subscribers_current st)"
      and m: "c \<notin> members (subscribers_current st)"
      and h: "history st' = history st @ d" and q: "EvSubscribe c \<notin> set d"
  proof (cases "i < length (subscribers_current st)")
    case False
    then show ?thesis using a by simp
  next
    case True
    show ?thesis
    proof (cases "subscribers_current st ! i")
      case None
      then have f0: "forEach n code (Suc i) st = Some st'" using a True by simp
      have "forEach n code' (Suc i) st = Some st'" using IHfor[OF f0 ok m h q] .
      then show ?thesis using True None by simp
    next
      case (Some ci)
      let ?st0 = "log_event (EvInvoke ci) st"
      from a True Some obtain st1 where r1: "run n code (code ci) ?st0 = Some st1"
        and f1: "forEach n code (Suc i) (log_event (EvReturn ci) st1) = Some st'"
        by (auto split: option.splits)
      let ?st2 = "log_event (EvReturn ci) st1"
      from r1 obtain d1 where h1: "history st1 = history ?st0 @ d1" using run_history by blast
      from f1 obtain d2 where h2: "history st' = history ?st2 @ d2" using forEach_history by blast
      have d: "d = EvInvoke ci # d1 @ EvReturn ci # d2" using h h1 h2 by (simp add: log_event_def)
      have q1: "EvSubscribe c \<notin> set d1" and q2: "EvSubscribe c \<notin> set d2" using q d by simp_all
      have mi: "ci \<in> members (subscribers_current st)"
        using True Some by (metis (mono_tags, lifting) members_def mem_Collect_eq nth_mem)
      then have ne: "ci \<noteq> c" using m by auto
      have s0: "subscribers_current ?st0 = subscribers_current st" by (simp add: log_event_def)
      have ok0: "set_ok (subscribers_current ?st0)" using ok s0 by simp
      have m0: "c \<notin> members (subscribers_current ?st0)" using m s0 by simp
      have a1: "run n code' (code ci) ?st0 = Some st1" using IHrun[OF r1 ok0 m0 h1 q1] .
      note fl = run_does_follow[OF r1]
      have ok1: "set_ok (subscribers_current st1)" using fl ok0 m0 h1 q1 by (rule follows_absent(1))
      have m1: "c \<notin> members (subscribers_current st1)" using fl ok0 m0 h1 q1 by (rule follows_absent(2))
      have ok2: "set_ok (subscribers_current ?st2)" using ok1 by (simp add: log_event_def)
      have m2: "c \<notin> members (subscribers_current ?st2)" using m1 by (simp add: log_event_def)
      have "forEach n code' (Suc i) ?st2 = Some st'" using IHfor[OF f1 ok2 m2 h2 q2] .
      then show ?thesis using True Some a1 eq[OF ne] by simp
    qed
  qed
  have s: "set_store (Suc n) code' v st = Some st'"
    if a: "set_store (Suc n) code v st = Some st'" and ok: "set_ok (subscribers_current st)"
      and m: "c \<notin> members (subscribers_current st)"
      and h: "history st' = history st @ d" and q: "EvSubscribe c \<notin> set d"
  proof -
    let ?st0 = "assign v st"
    from a have f0: "forEach n code 0 ?st0 = Some st'" by simp
    then obtain d0 where h0: "history st' = history ?st0 @ d0" using forEach_history by blast
    have d: "d = EvSet v # d0" using h h0 by (simp add: assign_def)
    have s0: "subscribers_current ?st0 = subscribers_current st" by (simp add: assign_def)
    have "forEach n code' 0 ?st0 = Some st'"
      using IHfor[OF f0 _ _ h0] ok m q d s0 by simp
    then show ?thesis by simp
  qed
  from r f s show ?case by blast
qed

lemma run_body_unused:
  assumes "run n code p st = Some st'" and "set_ok (subscribers_current st)"
    and "c \<notin> members (subscribers_current st)"
    and "EvSubscribe c \<notin> set (events_since st st')"
  shows "run n (code(c := b)) p st = Some st'"
proof -
  have h: "history st' = history st @ events_since st st'"
    using run_does_follow[OF assms(1)] by (rule follows_events(1))
  from run_without[where code' = "code(c := b)" and code = code and c = c and n = n and p = p
      and st = st and st' = st' and d = "events_since st st'" and i = 0 and v = "store_current st"]
    assms h
  show ?thesis by simp
qed

section \<open>Consequences that several claims use\<close>

text \<open>
  The Set of a new store is empty, and no call makes two entries of one callback: the
  elements are pairwise different in every state that a client reaches.
\<close>

lemma set_ok_reached:
  assumes "run n code p (useStoreData init) = Some st"
  shows "set_ok (subscribers_current st)"
proof -
  have "set_ok (subscribers_current (useStoreData init))"
    by (simp add: useStoreData_def set_ok_def)
  then show ?thesis using run_does_follow[OF assms] follows_events(4) by blast
qed

text \<open>A callback that is not in the Set is not invoked before it is subscribed again.\<close>

lemma stays_unsubscribed:
  assumes "run n code p st = Some st'" and "set_ok (subscribers_current st)"
    and "c \<notin> members (subscribers_current st)"
    and "EvSubscribe c \<notin> set (events_since st st')"
  shows "c \<notin> set (invoked (events_since st st')) \<and> c \<notin> members (subscribers_current st')"
proof -
  note f = run_does_follow[OF assms(1)]
  have "invokes_subscribed (members (subscribers_current st)) (events_since st st')"
    using f assms(2) by (rule follows_events(6))
  from not_invoked_while_absent[OF this assms(3,4)]
  show ?thesis using follows_events(5)[OF f assms(2)] by simp
qed

text \<open>Setting one key, and reading it or another key afterwards.\<close>

lemma set_key_then_read:
  assumes "set_store n code [k \<mapsto> v] st = Some st'"
  shows "list_all (\<lambda>w. k \<notin> dom w) (tl (merged (events_since st st'))) \<Longrightarrow> get st' k = Some v"
    and "k' \<noteq> k \<Longrightarrow> list_all (\<lambda>w. k' \<notin> dom w) (tl (merged (events_since st st'))) \<Longrightarrow>
         get st' k' = get st k'"
proof -
  let ?rest = "events_since (assign [k \<mapsto> v] st) st'"
  have e: "events_since st st' = EvSet [k \<mapsto> v] # ?rest"
    using assms by (rule set_store_events)
  have g: "get st' = replay (get st) (events_since st st')"
    using set_store_does_follow[OF assms] follows_events(2) by (simp add: get_def)
  show "get st' k = Some v" if "list_all (\<lambda>w. k \<notin> dom w) (tl (merged (events_since st st')))"
  proof -
    have "get st' k = replay (get st ++ [k \<mapsto> v]) ?rest k" using g e by simp
    also have "\<dots> = (get st ++ [k \<mapsto> v]) k" using that e by (simp add: replay_untouched)
    finally show ?thesis by simp
  qed
  show "get st' k' = get st k'"
    if "k' \<noteq> k" "list_all (\<lambda>w. k' \<notin> dom w) (tl (merged (events_since st st')))"
  proof -
    have "list_all (\<lambda>w. k' \<notin> dom w) (merged (events_since st st'))" using that e by simp
    then show ?thesis using g by (simp add: replay_untouched)
  qed
qed

lemma set_key_returns:
  assumes "list_all (\<lambda>c. reads_only (code c) (get st ++ [k \<mapsto> v])) (elements (subscribers_current st))"
  shows "\<exists>n st'. set_store n code [k \<mapsto> v] st = Some st' \<and> get st' k = Some v"
proof -
  from set_store_readers_return[OF assms] obtain n st' where
    "set_store n code [k \<mapsto> v] st = Some st'" "get st' = get st ++ [k \<mapsto> v]" by blast
  then have "set_store n code [k \<mapsto> v] st = Some st' \<and> get st' k = Some v" by simp
  then show ?thesis by blast
qed

text \<open>What a call of \<^verbatim>\<open>set\<close> leaves in the store, and what the reads made during it return.\<close>

lemma set_store_state:
  assumes "set_store n code v st = Some st'"
  shows "\<exists>rest. events_since st st' = EvSet v # rest \<and> get st' = replay (get st ++ v) rest"
    and "merged (events_since st st') = [v] \<Longrightarrow> get st' = get st ++ v"
proof -
  let ?rest = "events_since (assign v st) st'"
  have e: "events_since st st' = EvSet v # ?rest"
    using assms by (rule set_store_events)
  have "get st' = replay (get st) (events_since st st')"
    using set_store_does_follow[OF assms] follows_events(2) by (simp add: get_def)
  then have a: "get st' = replay (get st ++ v) ?rest" using e by simp
  from e a show "\<exists>rest. events_since st st' = EvSet v # rest \<and> get st' = replay (get st ++ v) rest"
    by blast
  show "get st' = get st ++ v" if "merged (events_since st st') = [v]"
    using a e that by (simp add: replay_no_merge)
qed

lemma set_store_reads:
  assumes "set_store n code v st = Some st'"
  shows "\<exists>rest. events_since st st' = EvSet v # rest
          \<and> (\<forall>pre obj post. rest = pre @ EvGet obj # post \<longrightarrow> obj = replay (get st ++ v) pre)
          \<and> (merged rest = [] \<longrightarrow> (\<forall>obj. EvGet obj \<in> set rest \<longrightarrow> obj = get st ++ v))"
proof -
  let ?rest = "events_since (assign v st) st'"
  have e: "events_since st st' = EvSet v # ?rest"
    using assms by (rule set_store_events)
  have "reads_latest (get st) (events_since st st')"
    using set_store_does_follow[OF assms] follows_events(3) by (simp add: get_def)
  then have l: "reads_latest (get st ++ v) ?rest" using e by simp
  have a: "obj = replay (get st ++ v) pre" if "?rest = pre @ EvGet obj # post" for pre obj post
    using l that reads_latest_at by metis
  have b: "obj = get st ++ v" if m: "merged ?rest = []" and i: "EvGet obj \<in> set ?rest" for obj
  proof -
    from i obtain pre post where s: "?rest = pre @ EvGet obj # post"
      by (auto simp: in_set_conv_decomp)
    then have "merged pre = []" using m by (simp add: merged_append)
    then show ?thesis using a[OF s] by (simp add: replay_no_merge)
  qed
  from e a b show ?thesis by blast
qed

section \<open>The claims\<close>

text \<open>
  The examples are evaluated with the definitions of the store, of the application's
  initial state and of the example callbacks.
\<close>

lemmas store_eval =
  set_then_get_def setValue_then_readValue_def code_readers_def code_unsubscriber_def
  code_rewriter_def code_renamer_def code_counter_def code_markers_def
  one_subscriber_def two_subscribers_def three_subscribers_def
  subscribe_def useStoreData_def initialState_def assign_def log_event_def get_def
  numeral_eq_Suc events_since_def members_def getSnapshot_def set_ok_def

text \<open>
  C1. A call \<^verbatim>\<open>set(value)\<close> first replaces \<^verbatim>\<open>store.current\<close> by
  \<^verbatim>\<open>{ ...store.current, ...value }\<close>: in that object every key of \<open>value\<close> has the
  value that \<open>value\<close> gives it and every other key has the value it had. What the store
  holds when the call returns is that object, updated by the merges that the callbacks
  made during the notification, and it is exactly that object when there were none;
  when the subscribed callbacks only read the store, the call returns and the store
  holds that object. Across any client program \<open>p\<close>, that is any sequence of calls of \<^verbatim>\<open>get\<close>,
  \<^verbatim>\<open>set\<close>, \<^verbatim>\<open>subscribe\<close> and of unsubscribe functions, with any callbacks, no key
  leaves the store, and a key that no merged object contains keeps its value.
\<close>

theorem merge_is_shallow_and_loses_no_key:
  "(set_store n code v st = Some st1 \<longrightarrow>
      (\<exists>rest. events_since st st1 = EvSet v # rest \<and> get st1 = replay (get st ++ v) rest)
      \<and> (merged (events_since st st1) = [v] \<longrightarrow> get st1 = get st ++ v))
   \<and> (\<forall>k. (get st ++ v) k = (if k \<in> dom v then v k else get st k))
   \<and> (list_all (\<lambda>c. reads_only (code c) (get st ++ v)) (elements (subscribers_current st)) \<longrightarrow>
        (\<exists>n' st3. set_store n' code v st = Some st3 \<and> get st3 = get st ++ v))
   \<and> (run m code p st = Some st2 \<longrightarrow>
        dom (get st) \<subseteq> dom (get st2)
        \<and> (\<forall>k. list_all (\<lambda>w. k \<notin> dom w) (merged (events_since st st2)) \<longrightarrow>
               get st2 k = get st k))"
proof (intro conjI impI allI)
  assume a: "set_store n code v st = Some st1"
  show "\<exists>rest. events_since st st1 = EvSet v # rest \<and> get st1 = replay (get st ++ v) rest"
    using a by (rule set_store_state(1))
  show "get st1 = get st ++ v" if "merged (events_since st st1) = [v]"
    using a that by (rule set_store_state(2))
next
  show "(get st ++ v) k = (if k \<in> dom v then v k else get st k)" for k
    by (auto simp: map_add_def split: option.splits)
next
  assume "list_all (\<lambda>c. reads_only (code c) (get st ++ v)) (elements (subscribers_current st))"
  from set_store_readers_return[OF this] obtain n' st3 where
    "set_store n' code v st = Some st3" "get st3 = get st ++ v" by blast
  then show "\<exists>n' st3. set_store n' code v st = Some st3 \<and> get st3 = get st ++ v" by blast
next
  assume r: "run m code p st = Some st2"
  have s2: "get st2 = replay (get st) (events_since st st2)"
    using run_does_follow[OF r] follows_events(2) by (simp add: get_def)
  show "dom (get st) \<subseteq> dom (get st2)" using s2 by (simp add: dom_replay)
  show "get st2 k = get st k"
    if "list_all (\<lambda>w. k \<notin> dom w) (merged (events_since st st2))" for k
    using s2 that by (simp add: replay_untouched)
qed

text \<open>
  The scenario of the specification on the application's store with two subscribed
  readers: \<^verbatim>\<open>count\<close> is set to 1, then \<^verbatim>\<open>first\<close> to \<^verbatim>\<open>"Ada"\<close>; \<^verbatim>\<open>last\<close> is in
  neither object and stays the empty string.
\<close>

theorem merge_is_shallow_and_loses_no_key_witness:
  "(case set_store 8 code_readers [''count'' \<mapsto> JNum 1] two_subscribers of
      None \<Rightarrow> False
    | Some st1 \<Rightarrow> merged (events_since two_subscribers st1) = [[''count'' \<mapsto> JNum 1]]
        \<and> get st1 ''count'' = Some (JNum 1) \<and> get st1 ''first'' = Some (JStr []))
   \<and> (case run 20 code_readers
             (CallSet [''count'' \<mapsto> JNum 1] (CallSet [''first'' \<mapsto> JStr ''Ada''] Return))
             two_subscribers of
      None \<Rightarrow> False
    | Some st2 \<Rightarrow> list_all (\<lambda>w. ''last'' \<notin> dom w) (merged (events_since two_subscribers st2))
        \<and> get st2 ''last'' = Some (JStr []) \<and> get st2 ''first'' = Some (JStr ''Ada'')
        \<and> get st2 ''count'' = Some (JNum 1))
   \<and> list_all (\<lambda>c. reads_only (code_readers c) (get two_subscribers ++ [''count'' \<mapsto> JNum 1]))
        (elements (subscribers_current two_subscribers))"
proof -
  obtain st1 where r1: "set_store 8 code_readers [''count'' \<mapsto> JNum 1] two_subscribers = Some st1"
    by (simp add: store_eval)
  obtain st2 where r2: "run 20 code_readers
             (CallSet [''count'' \<mapsto> JNum 1] (CallSet [''first'' \<mapsto> JStr ''Ada''] Return))
             two_subscribers = Some st2"
    by (simp add: store_eval)
  have m1: "merged (events_since two_subscribers st1) = [[''count'' \<mapsto> JNum 1]]"
    using r1 by (auto simp: store_eval)
  have m2: "list_all (\<lambda>w. ''last'' \<notin> dom w) (merged (events_since two_subscribers st2))"
    using r2 by (auto simp: store_eval)
  have g: "get two_subscribers ''last'' = Some (JStr [])"
    "get two_subscribers ''first'' = Some (JStr [])"
    by (simp_all add: store_eval)
  have g2: "get st2 ''first'' = Some (JStr ''Ada'')" "get st2 ''count'' = Some (JNum 1)"
    using r2 by (auto simp: store_eval)
  have rd: "list_all (\<lambda>c. reads_only (code_readers c) (get two_subscribers ++ [''count'' \<mapsto> JNum 1]))
        (elements (subscribers_current two_subscribers))"
    by (simp add: store_eval)
  note t = merge_is_shallow_and_loses_no_key[of 8 code_readers "[''count'' \<mapsto> JNum 1]"
      two_subscribers st1 20
      "CallSet [''count'' \<mapsto> JNum 1] (CallSet [''first'' \<mapsto> JStr ''Ada''] Return)" st2]
  have "get st1 = get two_subscribers ++ [''count'' \<mapsto> JNum 1]" using t r1 m1 by blast
  then have g1: "get st1 ''count'' = Some (JNum 1)" "get st1 ''first'' = Some (JStr [])"
    using g by simp_all
  have "get st2 ''last'' = get two_subscribers ''last''" using t r2 m2 by blast
  then have g3: "get st2 ''last'' = Some (JStr [])" using g by simp
  from r1 r2 m1 m2 g1 g2 g3 rd show ?thesis by simp
qed

text \<open>
  C2. \<^verbatim>\<open>set({ [k]: v })\<close> followed at once by \<^verbatim>\<open>get()[k]\<close> returns \<open>v\<close>, provided
  that no callback invoked during the notification merges an object that contains \<open>k\<close>;
  and when the subscribed callbacks only read the store, the call returns and the read
  gives \<open>v\<close>. The notification is part of the call, and a callback may call
  \<^verbatim>\<open>set\<close> again before the outer call returns.
\<close>

theorem write_then_read_unless_overwritten:
  "(set_store n code [k \<mapsto> v] st = Some st' \<longrightarrow>
      list_all (\<lambda>w. k \<notin> dom w) (tl (merged (events_since st st'))) \<longrightarrow>
      get st' k = Some v)
   \<and> (list_all (\<lambda>c. reads_only (code c) (get st ++ [k \<mapsto> v])) (elements (subscribers_current st)) \<longrightarrow>
      (\<exists>n. set_then_get n code k v st = Some (Some v)))"
proof (intro conjI impI)
  assume "set_store n code [k \<mapsto> v] st = Some st'"
    and "list_all (\<lambda>w. k \<notin> dom w) (tl (merged (events_since st st')))"
  then show "get st' k = Some v" by (rule set_key_then_read(1))
next
  assume "list_all (\<lambda>c. reads_only (code c) (get st ++ [k \<mapsto> v])) (elements (subscribers_current st))"
  from set_key_returns[OF this] obtain n st' where
    "set_store n code [k \<mapsto> v] st = Some st'" "get st' k = Some v" by blast
  then have "set_then_get n code k v st = Some (Some v)" by (simp add: set_then_get_def)
  then show "\<exists>n. set_then_get n code k v st = Some (Some v)" ..
qed

text \<open>
  As the claim is stated, for every key and value, it fails: with one subscribed callback
  that sets \<^verbatim>\<open>count\<close> to 2 when it finds 1 there, \<^verbatim>\<open>set({ count: 1 })\<close> followed by
  \<^verbatim>\<open>get().count\<close> gives 2.
\<close>

theorem write_then_read_counterexample:
  "set_then_get 8 code_rewriter ''count'' (JNum 1) one_subscriber = Some (Some (JNum 2))"
  by (simp add: store_eval)

text \<open>
  A callback that sets \<^verbatim>\<open>count\<close> when \<^verbatim>\<open>first\<close> becomes \<^verbatim>\<open>"Ada"\<close> merges during the
  notification, but not the key written; and two readers.
\<close>

theorem write_then_read_unless_overwritten_witness:
  "(case set_store 12 code_counter [''first'' \<mapsto> JStr ''Ada''] one_subscriber of
      None \<Rightarrow> False
    | Some st' \<Rightarrow> length (merged (events_since one_subscriber st')) = 2
        \<and> list_all (\<lambda>w. ''first'' \<notin> dom w) (tl (merged (events_since one_subscriber st')))
        \<and> get st' ''first'' = Some (JStr ''Ada'') \<and> get st' ''count'' = Some (JNum 1))
   \<and> list_all (\<lambda>c. reads_only (code_readers c) (get two_subscribers ++ [''count'' \<mapsto> JNum 1]))
        (elements (subscribers_current two_subscribers))
   \<and> set_then_get 8 code_readers ''count'' (JNum 1) two_subscribers = Some (Some (JNum 1))"
proof -
  obtain st' where r: "set_store 12 code_counter [''first'' \<mapsto> JStr ''Ada''] one_subscriber = Some st'"
    by (simp add: store_eval)
  have m: "length (merged (events_since one_subscriber st')) = 2"
    "list_all (\<lambda>w. ''first'' \<notin> dom w) (tl (merged (events_since one_subscriber st')))"
    "get st' ''count'' = Some (JNum 1)"
    using r by (auto simp: store_eval)
  have q: "list_all (\<lambda>c. reads_only (code_readers c) (get two_subscribers ++ [''count'' \<mapsto> JNum 1]))
        (elements (subscribers_current two_subscribers))"
    by (simp add: store_eval)
  have t: "set_then_get 8 code_readers ''count'' (JNum 1) two_subscribers = Some (Some (JNum 1))"
    by (simp add: store_eval)
  from write_then_read_unless_overwritten[of 12 code_counter "''first''" "JStr ''Ada''" one_subscriber st']
    r m q t
  show ?thesis by simp
qed



text \<open>
  C4. A call \<^verbatim>\<open>set(value)\<close> replaces \<^verbatim>\<open>store.current\<close> before it invokes any
  callback: the first event of the call is the merge, and every \<^verbatim>\<open>get()\<close> made while
  the call runs returns the merged object, updated by the merges made since. When the
  callbacks make no merge of their own, every read returns exactly
  \<^verbatim>\<open>{ ...store.current, ...value }\<close>; when the subscribed callbacks only read the
  store, the call returns and every read has returned that object.
\<close>

theorem subscribers_observe_the_merged_state:
  "(set_store n code v st = Some st' \<longrightarrow>
      (\<exists>rest. events_since st st' = EvSet v # rest
          \<and> (\<forall>pre obj post. rest = pre @ EvGet obj # post \<longrightarrow> obj = replay (get st ++ v) pre)
          \<and> (merged rest = [] \<longrightarrow> (\<forall>obj. EvGet obj \<in> set rest \<longrightarrow> obj = get st ++ v))))
   \<and> (list_all (\<lambda>c. reads_only (code c) (get st ++ v)) (elements (subscribers_current st)) \<longrightarrow>
        (\<exists>m st''. set_store m code v st = Some st''
           \<and> (\<forall>obj. EvGet obj \<in> set (events_since st st'') \<longrightarrow> obj = get st ++ v)))"
proof (intro conjI impI)
  assume "set_store n code v st = Some st'"
  then show "\<exists>rest. events_since st st' = EvSet v # rest
          \<and> (\<forall>pre obj post. rest = pre @ EvGet obj # post \<longrightarrow> obj = replay (get st ++ v) pre)
          \<and> (merged rest = [] \<longrightarrow> (\<forall>obj. EvGet obj \<in> set rest \<longrightarrow> obj = get st ++ v))"
    by (rule set_store_reads)
next
  assume "list_all (\<lambda>c. reads_only (code c) (get st ++ v)) (elements (subscribers_current st))"
  from set_store_readers_return[OF this] obtain m st'' where
    a: "set_store m code v st = Some st''" and mg: "merged (events_since st st'') = [v]"
    by blast
  from set_store_reads[OF a] obtain rest where e: "events_since st st'' = EvSet v # rest"
    and b: "merged rest = [] \<longrightarrow> (\<forall>obj. EvGet obj \<in> set rest \<longrightarrow> obj = get st ++ v)"
    by blast
  have "merged rest = []" using mg e by simp
  then have "\<forall>obj. EvGet obj \<in> set (events_since st st'') \<longrightarrow> obj = get st ++ v"
    using b e by simp
  with a show "\<exists>m st''. set_store m code v st = Some st''
           \<and> (\<forall>obj. EvGet obj \<in> set (events_since st st'') \<longrightarrow> obj = get st ++ v)"
    by blast
qed

text \<open>
  The whole history of \<^verbatim>\<open>set({ count: 1 })\<close> with two subscribed readers: the merge,
  then each callback invoked reads the object with \<^verbatim>\<open>count\<close> at 1, which was 0.
\<close>

theorem subscribers_observe_the_merged_state_witness:
  "case set_store 8 code_readers [''count'' \<mapsto> JNum 1] two_subscribers of
     None \<Rightarrow> False
   | Some st' \<Rightarrow>
       events_since two_subscribers st' =
         EvSet [''count'' \<mapsto> JNum 1] #
           ([EvInvoke 0] @ EvGet (get two_subscribers ++ [''count'' \<mapsto> JNum 1]) #
            [EvReturn 0, EvInvoke 1, EvGet (get two_subscribers ++ [''count'' \<mapsto> JNum 1]),
             EvReturn 1])
     \<and> (get two_subscribers ++ [''count'' \<mapsto> JNum 1]) ''count'' = Some (JNum 1)
     \<and> get two_subscribers ''count'' = Some (JNum 0)
     \<and> list_all (\<lambda>c. reads_only (code_readers c) (get two_subscribers ++ [''count'' \<mapsto> JNum 1]))
          (elements (subscribers_current two_subscribers))"
proof -
  obtain st' where r: "set_store 8 code_readers [''count'' \<mapsto> JNum 1] two_subscribers = Some st'"
    by (simp add: store_eval)
  have e: "events_since two_subscribers st' =
         EvSet [''count'' \<mapsto> JNum 1] #
           ([EvInvoke 0] @ EvGet (get two_subscribers ++ [''count'' \<mapsto> JNum 1]) #
            [EvReturn 0, EvInvoke 1, EvGet (get two_subscribers ++ [''count'' \<mapsto> JNum 1]),
             EvReturn 1])"
    using r by (auto simp: store_eval)
  have g: "(get two_subscribers ++ [''count'' \<mapsto> JNum 1]) ''count'' = Some (JNum 1)"
    "get two_subscribers ''count'' = Some (JNum 0)"
    by (simp_all add: store_eval)
  have rd: "list_all (\<lambda>c. reads_only (code_readers c) (get two_subscribers ++ [''count'' \<mapsto> JNum 1]))
        (elements (subscribers_current two_subscribers))"
    by (simp add: store_eval)
  from subscribers_observe_the_merged_state[of 8 code_readers "[''count'' \<mapsto> JNum 1]"
      two_subscribers st'] e g r rd
  show ?thesis by simp
qed

text \<open>
  C5. The function that \<^verbatim>\<open>subscribe(c)\<close> returns removes \<open>c\<close> from the Set and leaves
  every other callback in it; it returns \<^verbatim>\<open>true\<close> the first time. Called again it
  returns \<^verbatim>\<open>false\<close>, raises nothing and changes neither the Set nor the store. After
  either call, whatever the client and the callbacks do next, no notification invokes
  \<open>c\<close> for as long as \<open>c\<close> is not subscribed again.
\<close>

theorem unsubscribe_removes_exactly_its_callback:
  assumes "set_ok (subscribers_current st)"
    and "subscribe c st = (u, st1)"
    and "call_unsubscribe u st1 = (r, st2)"
    and "call_unsubscribe u st2 = (r', st3)"
  shows "c \<in> members (subscribers_current st1)
       \<and> r \<and> members (subscribers_current st2) = members (subscribers_current st1) - {c}
       \<and> \<not> r' \<and> subscribers_current st3 = subscribers_current st2
       \<and> store_current st3 = store_current st \<and> store_current st2 = store_current st
       \<and> ((sa = st2 \<or> sa = st3) \<longrightarrow> run n code p sa = Some st' \<longrightarrow>
            EvSubscribe c \<notin> set (events_since sa st') \<longrightarrow>
            c \<notin> set (invoked (events_since sa st')) \<and> c \<notin> members (subscribers_current st'))"
proof -
  from assms(2) have u: "u = Unsubscribe c"
    and s1: "subscribers_current st1 = set_add c (subscribers_current st)"
    and c1: "store_current st1 = store_current st"
    by (auto simp: subscribe_def)
  have ok1: "set_ok (subscribers_current st1)" using assms(1) s1 by (simp add: set_add_keeps_ok)
  have m1: "c \<in> members (subscribers_current st1)" using s1 by (simp add: members_set_add)
  from assms(3) u have r: "r = fst (set_delete c (subscribers_current st1))"
    and s2: "subscribers_current st2 = snd (set_delete c (subscribers_current st1))"
    and c2: "store_current st2 = store_current st1"
    by auto
  have rt: "r" using r m1 by (simp add: members_def set_delete_present)
  have m2: "members (subscribers_current st2) = members (subscribers_current st1) - {c}"
    using s2 ok1 by (simp add: members_set_delete)
  have ok2: "set_ok (subscribers_current st2)" using s2 ok1 by (simp add: set_delete_keeps_ok)
  have n2: "Some c \<notin> set (subscribers_current st2)" using m2 by (auto simp: members_def)
  from assms(4) u have r': "r' = fst (set_delete c (subscribers_current st2))"
    and s3: "subscribers_current st3 = snd (set_delete c (subscribers_current st2))"
    and c3: "store_current st3 = store_current st2"
    by auto
  have rf: "\<not> r'" using r' n2 by (simp add: set_delete_absent)
  have e3: "subscribers_current st3 = subscribers_current st2"
    using s3 n2 by (simp add: set_delete_absent)
  have later: "c \<notin> set (invoked (events_since sa st')) \<and> c \<notin> members (subscribers_current st')"
    if "sa = st2 \<or> sa = st3" "run n code p sa = Some st'"
      "EvSubscribe c \<notin> set (events_since sa st')"
  proof -
    have eq: "subscribers_current sa = subscribers_current st2"
      using that(1) e3 by (elim disjE) simp_all
    have "set_ok (subscribers_current sa)" using eq ok2 by simp
    moreover have "c \<notin> members (subscribers_current sa)" using eq m2 by simp
    ultimately show ?thesis using that(2,3) by (intro stays_unsubscribed)
  qed
  have c3': "store_current st3 = store_current st" using c1 c2 c3 by simp
  have c2': "store_current st2 = store_current st" using c1 c2 by simp
  show ?thesis
    apply (intro conjI impI)
    subgoal by (rule m1)
    subgoal by (rule rt)
    subgoal by (rule m2)
    subgoal by (rule rf)
    subgoal by (rule e3)
    subgoal by (rule c3')
    subgoal by (rule c2')
    subgoal using later by blast
    subgoal using later by blast
    done
qed

text \<open>
  Callback 7 is subscribed next to the readers 0 and 1 and unsubscribed twice; the
  \<^verbatim>\<open>set\<close> that follows invokes 0 and 1.
\<close>

theorem unsubscribe_removes_exactly_its_callback_witness:
  "set_ok (subscribers_current two_subscribers)
   \<and> subscribe 7 two_subscribers = (Unsubscribe 7, snd (subscribe 7 two_subscribers))
   \<and> elements (subscribers_current (snd (subscribe 7 two_subscribers))) = [0, 1, 7]
   \<and> fst (call_unsubscribe (Unsubscribe 7) (snd (subscribe 7 two_subscribers)))
   \<and> elements (subscribers_current
        (snd (call_unsubscribe (Unsubscribe 7) (snd (subscribe 7 two_subscribers))))) = [0, 1]
   \<and> \<not> fst (call_unsubscribe (Unsubscribe 7)
        (snd (call_unsubscribe (Unsubscribe 7) (snd (subscribe 7 two_subscribers)))))
   \<and> (case run 12 code_readers (CallSet [''count'' \<mapsto> JNum 1] Return)
             (snd (call_unsubscribe (Unsubscribe 7) (snd (subscribe 7 two_subscribers)))) of
        None \<Rightarrow> False
      | Some st' \<Rightarrow>
          invoked (events_since
            (snd (call_unsubscribe (Unsubscribe 7) (snd (subscribe 7 two_subscribers)))) st') = [0, 1])"
proof -
  let ?st1 = "snd (subscribe 7 two_subscribers)"
  let ?st2 = "snd (call_unsubscribe (Unsubscribe 7) ?st1)"
  let ?st3 = "snd (call_unsubscribe (Unsubscribe 7) ?st2)"
  have ok: "set_ok (subscribers_current two_subscribers)" by (simp add: store_eval)
  have a: "subscribe 7 two_subscribers = (Unsubscribe 7, ?st1)" by (simp add: subscribe_def)
  have b: "call_unsubscribe (Unsubscribe 7) ?st1 = (fst (call_unsubscribe (Unsubscribe 7) ?st1), ?st2)"
    by simp
  have c: "call_unsubscribe (Unsubscribe 7) ?st2 = (fst (call_unsubscribe (Unsubscribe 7) ?st2), ?st3)"
    by simp
  obtain st' where r: "run 12 code_readers (CallSet [''count'' \<mapsto> JNum 1] Return) ?st2 = Some st'"
    by (simp add: store_eval)
  have e: "EvSubscribe 7 \<notin> set (events_since ?st2 st')"
    and i: "invoked (events_since ?st2 st') = [0, 1]"
    using r by (auto simp: store_eval)
  have l: "elements (subscribers_current ?st1) = [0, 1, 7]"
    "elements (subscribers_current ?st2) = [0, 1]"
    by (simp_all add: store_eval)
  note t = unsubscribe_removes_exactly_its_callback[OF ok a b c, where sa = ?st2 and n = 12
      and code = code_readers and p = "CallSet [''count'' \<mapsto> JNum 1] Return" and st' = st']
  have f: "fst (call_unsubscribe (Unsubscribe 7) ?st1)"
    "\<not> fst (call_unsubscribe (Unsubscribe 7) ?st2)"
    using t by blast+
  from ok a r i l f show ?thesis by simp
qed

text \<open>
  C6. \<^verbatim>\<open>useStore(key)\<close> throws \<^verbatim>\<open>Error('Store not found')\<close> exactly when no
  \<^verbatim>\<open>Provider\<close> encloses the caller, that is when the context value is \<^verbatim>\<open>null\<close>;
  under a provider it returns the pair of the value and the setter.
\<close>

theorem useStore_throws_iff_no_provider:
  "(useStore init r key providers = Inl StoreNotFound \<longleftrightarrow> providers = [])
   \<and> (isl (useStore init r key providers) \<longleftrightarrow> providers = [])
   \<and> (useContext None (map Provider providers) = None \<longleftrightarrow> providers = [])"
  by (cases providers) (simp_all add: useStore_def useContext_def Provider_def)

text \<open>The accessor of \<^verbatim>\<open>count\<close> outside and inside the application's provider.\<close>

theorem useStore_throws_iff_no_provider_witness:
  "useStore initialState OnClient ''count'' [] = Inl StoreNotFound
   \<and> useStore initialState OnClient ''count'' [useStoreData initialState]
       = Inr (Some (JNum 0), Setter ''count'')"
  using useStore_throws_iff_no_provider[of initialState OnClient "''count''" "[]"]
  by (simp add: useStore_def useContext_def Provider_def useSyncExternalStore_def
      getSnapshot_def get_def useStoreData_def initialState_def)

text \<open>
  C7. Once a callback \<open>b\<close> has been unsubscribed during a call of \<^verbatim>\<open>set\<close>, nothing in
  the rest of that call invokes \<open>b\<close>, unless \<open>b\<close> is subscribed again in between; so a
  callback that had not been invoked when another one unsubscribed it is not invoked by
  that call at all.
\<close>

theorem removed_during_notification_is_not_invoked:
  assumes "set_store n code v st = Some st'" and "set_ok (subscribers_current st)"
    and "events_since st st' = pre @ EvUnsubscribe b # post"
    and "EvSubscribe b \<notin> set post"
  shows "b \<notin> set (invoked post)
       \<and> (b \<notin> set (invoked pre) \<longrightarrow> b \<notin> set (invoked (events_since st st')))"
proof -
  let ?S = "members (subscribers_current st)"
  have "invokes_subscribed ?S (events_since st st')"
    using set_store_does_follow[OF assms(1)] assms(2) by (rule follows_events(6))
  then have "invokes_subscribed (subs_after ?S pre - {b}) post"
    using assms(3) by (simp add: invokes_subscribed_append)
  then have a: "b \<notin> set (invoked post)"
    using assms(4) not_invoked_while_absent[of "subs_after ?S pre - {b}" post b] by simp
  then show ?thesis using assms(3) by (simp add: invoked_append)
qed

text \<open>
  Callbacks 0, 1 and 2 are subscribed in that order; callback 0 unsubscribes callback 1,
  and the pass goes on to callback 2 without invoking callback 1.
\<close>

theorem removed_during_notification_is_not_invoked_witness:
  "case set_store 8 code_unsubscriber [''count'' \<mapsto> JNum 1] three_subscribers of
     None \<Rightarrow> False
   | Some st' \<Rightarrow>
       set_ok (subscribers_current three_subscribers)
     \<and> elements (subscribers_current three_subscribers) = [0, 1, 2]
     \<and> events_since three_subscribers st' =
         [EvSet [''count'' \<mapsto> JNum 1], EvInvoke 0] @ EvUnsubscribe 1 #
           [EvReturn 0, EvInvoke 2, EvGet (get three_subscribers ++ [''count'' \<mapsto> JNum 1]),
            EvReturn 2]
     \<and> invoked (events_since three_subscribers st') = [0, 2]"
proof -
  obtain st' where r: "set_store 8 code_unsubscriber [''count'' \<mapsto> JNum 1] three_subscribers = Some st'"
    by (simp add: store_eval)
  have ok: "set_ok (subscribers_current three_subscribers)"
    "elements (subscribers_current three_subscribers) = [0, 1, 2]"
    by (simp_all add: store_eval)
  have e: "events_since three_subscribers st' =
         [EvSet [''count'' \<mapsto> JNum 1], EvInvoke 0] @ EvUnsubscribe 1 #
           [EvReturn 0, EvInvoke 2, EvGet (get three_subscribers ++ [''count'' \<mapsto> JNum 1]),
            EvReturn 2]"
    using r by (auto simp: store_eval)
  have "EvSubscribe 1 \<notin> set [EvReturn 0, EvInvoke 2,
      EvGet (get three_subscribers ++ [''count'' \<mapsto> JNum 1]), EvReturn 2]"
    by simp
  from removed_during_notification_is_not_invoked[OF r ok(1) e this] ok e r
  show ?thesis by simp
qed

text \<open>
  C8. Under a provider \<^verbatim>\<open>useStore(key)\<close> returns the setter of \<open>key\<close>. The setter
  called with \<open>v\<close> is \<^verbatim>\<open>store.set({ [key]: v })\<close>, a merge of an object that has the
  one key; the snapshot reader returns \<^verbatim>\<open>store.get()[key]\<close> of the store as it is when
  it is called. After \<^verbatim>\<open>setValue(v)\<close> the reader of \<open>key\<close> returns \<open>v\<close>, and the reader
  of another key returns what it returned before, provided that no callback invoked
  during the notification merges an object that contains the key read; and when the
  subscribed callbacks only read the store, the call returns and the read gives \<open>v\<close>.
\<close>

theorem binding_reads_and_writes_its_key:
  "useStore init r key (store # outer) =
      Inr (useSyncExternalStore r (getSnapshot key store) (getServerSnapshot init key), Setter key)
   \<and> call_setter n code (Setter key) v st = set_store n code [key \<mapsto> v] st
   \<and> dom [key \<mapsto> v] = {key}
   \<and> getSnapshot key st = get st key
   \<and> (call_setter n code (Setter key) v st = Some st' \<longrightarrow>
        list_all (\<lambda>w. key \<notin> dom w) (tl (merged (events_since st st'))) \<longrightarrow>
        getSnapshot key st' = Some v)
   \<and> (call_setter n code (Setter key) v st = Some st' \<longrightarrow> k' \<noteq> key \<longrightarrow>
        list_all (\<lambda>w. k' \<notin> dom w) (tl (merged (events_since st st'))) \<longrightarrow>
        getSnapshot k' st' = getSnapshot k' st)
   \<and> (list_all (\<lambda>c. reads_only (code c) (get st ++ [key \<mapsto> v])) (elements (subscribers_current st)) \<longrightarrow>
        (\<exists>m. setValue_then_readValue m code key v st = Some (Some v)))"
proof (intro conjI impI)
  show "useStore init r key (store # outer) =
      Inr (useSyncExternalStore r (getSnapshot key store) (getServerSnapshot init key), Setter key)"
    by (simp add: useStore_def useContext_def Provider_def)
  show "call_setter n code (Setter key) v st = set_store n code [key \<mapsto> v] st" by simp
  show "dom [key \<mapsto> v] = {key}" by simp
  show "getSnapshot key st = get st key" by (simp add: getSnapshot_def)
next
  assume "call_setter n code (Setter key) v st = Some st'"
    and "list_all (\<lambda>w. key \<notin> dom w) (tl (merged (events_since st st')))"
  then show "getSnapshot key st' = Some v"
    using set_key_then_read(1)[of n code key v st st'] by (simp add: getSnapshot_def)
next
  assume "call_setter n code (Setter key) v st = Some st'" and "k' \<noteq> key"
    and "list_all (\<lambda>w. k' \<notin> dom w) (tl (merged (events_since st st')))"
  then show "getSnapshot k' st' = getSnapshot k' st"
    using set_key_then_read(2)[of n code key v st st' k'] by (simp add: getSnapshot_def)
next
  assume "list_all (\<lambda>c. reads_only (code c) (get st ++ [key \<mapsto> v])) (elements (subscribers_current st))"
  from set_key_returns[OF this] obtain m st' where
    "set_store m code [key \<mapsto> v] st = Some st'" "get st' key = Some v" by blast
  then have "setValue_then_readValue m code key v st = Some (Some v)"
    by (simp add: setValue_then_readValue_def getSnapshot_def)
  then show "\<exists>m. setValue_then_readValue m code key v st = Some (Some v)" ..
qed

text \<open>
  As the claim is stated, for every binding, its last part fails: with one subscribed
  callback that sets \<^verbatim>\<open>first\<close> to \<^verbatim>\<open>"Bob"\<close> when it finds \<^verbatim>\<open>"Ada"\<close> there,
  \<^verbatim>\<open>setValue("Ada")\<close> on the binding of \<^verbatim>\<open>first\<close> followed by its reader gives
  \<^verbatim>\<open>"Bob"\<close>.
\<close>

theorem binding_counterexample:
  "setValue_then_readValue 8 code_renamer ''first'' (JStr ''Ada'') one_subscriber
     = Some (Some (JStr ''Bob''))"
  by (simp add: store_eval)

text \<open>
  The scenario of the specification: with two subscribed readers the setter of
  \<^verbatim>\<open>count\<close> is called with 1; the reader of \<^verbatim>\<open>count\<close> returns 1 and the readers of
  \<^verbatim>\<open>first\<close> and \<^verbatim>\<open>last\<close> still return the empty string.
\<close>

theorem binding_reads_and_writes_its_key_witness:
  "(case call_setter 8 code_readers (Setter ''count'') (JNum 1) two_subscribers of
      None \<Rightarrow> False
    | Some st' \<Rightarrow>
        list_all (\<lambda>w. ''count'' \<notin> dom w) (tl (merged (events_since two_subscribers st')))
      \<and> list_all (\<lambda>w. ''first'' \<notin> dom w) (tl (merged (events_since two_subscribers st')))
      \<and> getSnapshot ''count'' st' = Some (JNum 1)
      \<and> getSnapshot ''first'' st' = Some (JStr [])
      \<and> getSnapshot ''last'' st' = Some (JStr []))
   \<and> list_all (\<lambda>c. reads_only (code_readers c) (get two_subscribers ++ [''count'' \<mapsto> JNum 1]))
        (elements (subscribers_current two_subscribers))
   \<and> setValue_then_readValue 8 code_readers ''count'' (JNum 1) two_subscribers
        = Some (Some (JNum 1))"
proof -
  obtain st' where r: "call_setter 8 code_readers (Setter ''count'') (JNum 1) two_subscribers = Some st'"
    by (simp add: store_eval)
  have q: "list_all (\<lambda>w. ''count'' \<notin> dom w) (tl (merged (events_since two_subscribers st')))"
    "list_all (\<lambda>w. ''first'' \<notin> dom w) (tl (merged (events_since two_subscribers st')))"
    "getSnapshot ''last'' st' = Some (JStr [])"
    using r by (auto simp: store_eval)
  have g: "getSnapshot ''first'' two_subscribers = Some (JStr [])" by (simp add: store_eval)
  have rd: "list_all (\<lambda>c. reads_only (code_readers c) (get two_subscribers ++ [''count'' \<mapsto> JNum 1]))
        (elements (subscribers_current two_subscribers))"
    by (simp add: store_eval)
  have t: "setValue_then_readValue 8 code_readers ''count'' (JNum 1) two_subscribers
        = Some (Some (JNum 1))"
    by (simp add: store_eval)
  note b = binding_reads_and_writes_its_key[where n = 8 and code = code_readers
      and key = "''count''" and v = "JNum 1" and st = two_subscribers and st' = st'
      and k' = "''first''"]
  have "getSnapshot ''count'' st' = Some (JNum 1)" using b r q by blast
  moreover have "getSnapshot ''first'' st' = Some (JStr [])" using b r q g by auto
  ultimately show ?thesis using r q rd t by simp
qed

text \<open>
  C9. Every call of \<^verbatim>\<open>set\<close> notifies, whatever the object it is given: nothing in
  \<^verbatim>\<open>set\<close> looks at the old or the new values. A callback that is in the Set when the
  call starts, and is not unsubscribed during the call, is invoked by the pass of that
  call: after the merge the pass reaches a state at which it runs the body of the
  callback, and it goes on from the state that the body returns. While no call changes
  the Set, the call is the merge followed by the notification of the specification over
  the elements of the Set, the body of each of them run in turn. When the subscribed
  callbacks only read the store, the call returns and is that notification; the empty
  object and an object of equal values are such objects like any other.
\<close>

theorem every_merge_notifies:
  "(set_store n code v st = Some st' \<longrightarrow> c \<in> members (subscribers_current st) \<longrightarrow>
      EvUnsubscribe c \<in> set (events_since st st')
      \<or> (c \<in> set (notified 0 (events_since st st'))
         \<and> (\<exists>sa sb. follows (assign v st) sa
              \<and> notified 0 (events_since st sa @ [EvInvoke c])
                  = notified 0 (events_since st sa) @ [c]
              \<and> run n code (code c) (log_event (EvInvoke c) sa) = Some sb
              \<and> follows (log_event (EvReturn c) sb) st')))
   \<and> (set_store n code v st = Some st' \<longrightarrow>
      list_all (leaves_set (members (subscribers_current st))) (events_since st st') \<longrightarrow>
      notify_each n code (elements (subscribers_current st)) (assign v st) = Some st')
   \<and> (list_all (\<lambda>c. reads_only (code c) (get st ++ v)) (elements (subscribers_current st)) \<longrightarrow>
      (\<exists>m st''. set_store m code v st = Some st''
         \<and> notify_each m code (elements (subscribers_current st)) (assign v st) = Some st''
         \<and> list_all (\<lambda>c. c \<in> set (notified 0 (events_since st st'')))
              (elements (subscribers_current st))))"
proof (intro conjI impI)
  assume a: "set_store n code v st = Some st'" and m: "c \<in> members (subscribers_current st)"
  show "EvUnsubscribe c \<in> set (events_since st st')
      \<or> (c \<in> set (notified 0 (events_since st st'))
         \<and> (\<exists>sa sb. follows (assign v st) sa
              \<and> notified 0 (events_since st sa @ [EvInvoke c])
                  = notified 0 (events_since st sa) @ [c]
              \<and> run n code (code c) (log_event (EvInvoke c) sa) = Some sb
              \<and> follows (log_event (EvReturn c) sb) st'))"
  proof (cases "EvUnsubscribe c \<in> set (events_since st st')")
    case True
    then show ?thesis by (rule disjI1)
  next
    case False
    have "c \<in> set (notified 0 (events_since st st'))"
      using set_store_covers[OF a m] False by blast
    moreover note set_store_runs_body[OF a m False]
    ultimately show ?thesis by (intro disjI2 conjI)
  qed
next
  assume "set_store n code v st = Some st'"
    and "list_all (leaves_set (members (subscribers_current st))) (events_since st st')"
  then show "notify_each n code (elements (subscribers_current st)) (assign v st) = Some st'"
    by (rule set_store_is_notify_each)
next
  let ?S = "members (subscribers_current st)"
  assume r: "list_all (\<lambda>c. reads_only (code c) (get st ++ v)) (elements (subscribers_current st))"
  from set_store_readers_return[OF r, of ?S]
  obtain m st'' where a: "set_store m code v st = Some st''"
    and q: "list_all (leaves_set ?S) (events_since st st'')"
    by blast
  have "c \<in> set (notified 0 (events_since st st''))"
    if c: "c \<in> set (elements (subscribers_current st))" for c
  proof -
    have m: "c \<in> ?S" using c by (simp add: set_elements)
    have "EvUnsubscribe c \<notin> set (events_since st st'')"
      using q m by (auto simp: list_all_iff)
    then show ?thesis using set_store_covers[OF a m] by blast
  qed
  then have l: "list_all (\<lambda>c. c \<in> set (notified 0 (events_since st st'')))
              (elements (subscribers_current st))"
    by (simp add: list_all_iff)
  have e: "notify_each m code (elements (subscribers_current st)) (assign v st) = Some st''"
    using a q by (rule set_store_is_notify_each)
  show "\<exists>m st''. set_store m code v st = Some st''
         \<and> notify_each m code (elements (subscribers_current st)) (assign v st) = Some st''
         \<and> list_all (\<lambda>c. c \<in> set (notified 0 (events_since st st'')))
              (elements (subscribers_current st))"
  proof (intro exI conjI)
    show "set_store m code v st = Some st''" by (rule a)
    show "notify_each m code (elements (subscribers_current st)) (assign v st) = Some st''"
      by (rule e)
    show "list_all (\<lambda>c. c \<in> set (notified 0 (events_since st st'')))
              (elements (subscribers_current st))" by (rule l)
  qed
qed

text \<open>
  \<^verbatim>\<open>set({})\<close> on the application's store, with the callbacks that mark \<^verbatim>\<open>first\<close>
  and \<^verbatim>\<open>last\<close>: both marks are in the store when the call returns, which the bodies of
  the two callbacks have put there. \<^verbatim>\<open>set({ count: 0 })\<close>, where \<^verbatim>\<open>count\<close> is 0
  already, with the two readers: each of them is invoked and reads the store.
\<close>

theorem every_merge_notifies_witness:
  "(case set_store 20 code_markers Map.empty two_subscribers of
      None \<Rightarrow> False
    | Some st' \<Rightarrow>
        1 \<in> members (subscribers_current two_subscribers)
      \<and> list_all (leaves_set (members (subscribers_current two_subscribers)))
          (events_since two_subscribers st')
      \<and> get two_subscribers ''first'' = Some (JStr [])
      \<and> get two_subscribers ''last'' = Some (JStr [])
      \<and> get st' ''first'' = Some (JStr ''seen'')
      \<and> get st' ''last'' = Some (JStr ''seen'')
      \<and> notified 0 (events_since two_subscribers st') = [0, 1]
      \<and> notify_each 20 code_markers [0, 1] (assign Map.empty two_subscribers) = Some st')
   \<and> (case set_store 8 code_readers [''count'' \<mapsto> JNum 0] two_subscribers of
      None \<Rightarrow> False
    | Some st' \<Rightarrow>
        get st' ''count'' = get two_subscribers ''count''
      \<and> events_since two_subscribers st' =
          EvSet [''count'' \<mapsto> JNum 0] #
            ([EvInvoke 0] @ EvGet (get two_subscribers ++ [''count'' \<mapsto> JNum 0]) #
             [EvReturn 0, EvInvoke 1, EvGet (get two_subscribers ++ [''count'' \<mapsto> JNum 0]),
              EvReturn 1])
      \<and> notify_each 8 code_readers [0, 1] (assign [''count'' \<mapsto> JNum 0] two_subscribers)
          = Some st')
   \<and> list_all (\<lambda>c. reads_only (code_readers c) (get two_subscribers ++ [''count'' \<mapsto> JNum 0]))
        (elements (subscribers_current two_subscribers))"
proof -
  obtain st' where r: "set_store 20 code_markers Map.empty two_subscribers = Some st'"
    by (simp add: store_eval)
  have m: "1 \<in> members (subscribers_current two_subscribers)"
    by (simp add: store_eval)
  have q: "list_all (leaves_set (members (subscribers_current two_subscribers)))
          (events_since two_subscribers st')"
    using r by (auto simp: store_eval)
  have g: "get two_subscribers ''first'' = Some (JStr [])"
    "get two_subscribers ''last'' = Some (JStr [])"
    by (simp_all add: store_eval)
  have g': "get st' ''first'' = Some (JStr ''seen'')" "get st' ''last'' = Some (JStr ''seen'')"
    using r by (auto simp: store_eval)
  have i: "notified 0 (events_since two_subscribers st') = [0, 1]"
    using r by (auto simp: store_eval)
  have l: "elements (subscribers_current two_subscribers) = [0, 1]"
    by (simp add: store_eval)
  note t = every_merge_notifies[of 20 code_markers Map.empty two_subscribers st' 1]
  have e: "notify_each 20 code_markers [0, 1] (assign Map.empty two_subscribers) = Some st'"
    using t r q l by simp
  obtain st2 where r2: "set_store 8 code_readers [''count'' \<mapsto> JNum 0] two_subscribers = Some st2"
    by (simp add: store_eval)
  have q2: "list_all (leaves_set (members (subscribers_current two_subscribers)))
          (events_since two_subscribers st2)"
    and g2: "get st2 ''count'' = get two_subscribers ''count''"
    and e2: "events_since two_subscribers st2 =
          EvSet [''count'' \<mapsto> JNum 0] #
            ([EvInvoke 0] @ EvGet (get two_subscribers ++ [''count'' \<mapsto> JNum 0]) #
             [EvReturn 0, EvInvoke 1, EvGet (get two_subscribers ++ [''count'' \<mapsto> JNum 0]),
              EvReturn 1])"
    using r2 by (auto simp: store_eval)
  have rd: "list_all (\<lambda>c. reads_only (code_readers c) (get two_subscribers ++ [''count'' \<mapsto> JNum 0]))
        (elements (subscribers_current two_subscribers))"
    by (simp add: store_eval)
  note t2 = every_merge_notifies[of 8 code_readers "[''count'' \<mapsto> JNum 0]" two_subscribers st2 1]
  have n2: "notify_each 8 code_readers [0, 1] (assign [''count'' \<mapsto> JNum 0] two_subscribers)
          = Some st2"
    using t2 r2 q2 l by simp
  show ?thesis using r m q g g' i e r2 g2 e2 n2 rd by simp
qed

text \<open>
  C10. Subscribing a callback that is subscribed already leaves the Set as it is, with
  one entry for the callback. While no call changes the Set, the pass of a call of
  \<^verbatim>\<open>set\<close> invokes the callback once, and the call is the merge followed by the
  notification of the specification over the elements of the Set, in which the callback
  occurs once: its body is run once by the pass. When the subscribed callbacks only read
  the store, the call returns and has done so. The function returned by either call of
  \<^verbatim>\<open>subscribe\<close> removes the callback and nothing else, and then no notification invokes it
  for as long as it is not subscribed again: what the calls return does not depend on
  the body of the callback.
\<close>

theorem subscribing_twice_keeps_one_entry:
  assumes "set_ok (subscribers_current st)"
    and "subscribe c st = (u1, st1)"
    and "subscribe c st1 = (u2, st2)"
  shows "subscribers_current st2 = subscribers_current st1
       \<and> count_list (elements (subscribers_current st2)) c = 1
       \<and> (set_store n code v st2 = Some st' \<longrightarrow>
            list_all (leaves_set (members (subscribers_current st2))) (events_since st2 st') \<longrightarrow>
            count_list (notified 0 (events_since st2 st')) c = 1
          \<and> notify_each n code (elements (subscribers_current st2)) (assign v st2) = Some st')
       \<and> (list_all (\<lambda>c. reads_only (code c) (get st2 ++ v)) (elements (subscribers_current st2)) \<longrightarrow>
            (\<exists>n' st3. set_store n' code v st2 = Some st3
               \<and> count_list (invoked (events_since st2 st3)) c = 1
               \<and> notify_each n' code (elements (subscribers_current st2)) (assign v st2) = Some st3))
       \<and> ((u = u1 \<or> u = u2) \<longrightarrow>
            members (subscribers_current (snd (call_unsubscribe u st2)))
              = members (subscribers_current st2) - {c}
          \<and> (run m code p (snd (call_unsubscribe u st2)) = Some st'' \<longrightarrow>
               EvSubscribe c \<notin> set (events_since (snd (call_unsubscribe u st2)) st'') \<longrightarrow>
               c \<notin> set (invoked (events_since (snd (call_unsubscribe u st2)) st''))
             \<and> run m (code(c := body)) p (snd (call_unsubscribe u st2)) = Some st''))"
proof -
  from assms(2) have u1: "u1 = Unsubscribe c"
    and s1: "subscribers_current st1 = set_add c (subscribers_current st)"
    by (auto simp: subscribe_def)
  have ok1: "set_ok (subscribers_current st1)" using assms(1) s1 by (simp add: set_add_keeps_ok)
  have m1: "c \<in> members (subscribers_current st1)" using s1 by (simp add: members_set_add)
  from assms(3) have u2: "u2 = Unsubscribe c"
    and s2: "subscribers_current st2 = set_add c (subscribers_current st1)"
    by (auto simp: subscribe_def)
  have e: "subscribers_current st2 = subscribers_current st1"
    using s2 m1 by (simp add: members_def set_add_present)
  have ok2: "set_ok (subscribers_current st2)" using e ok1 by simp
  have m2: "c \<in> members (subscribers_current st2)" using e m1 by simp
  have one: "count_list (elements (subscribers_current st2)) c = 1"
    using ok2 m2 by (simp add: count_list_distinct distinct_elements set_elements)
  have per_merge: "count_list (notified 0 (events_since st2 st')) c = 1"
    if "set_store n code v st2 = Some st'"
      "list_all (leaves_set (members (subscribers_current st2))) (events_since st2 st')"
    using that(1) ok2 that(2) m2 by (rule set_store_notifies_once)
  have bodies: "notify_each n code (elements (subscribers_current st2)) (assign v st2) = Some st'"
    if "set_store n code v st2 = Some st'"
      "list_all (leaves_set (members (subscribers_current st2))) (events_since st2 st')"
    using that by (rule set_store_is_notify_each)
  have readers: "\<exists>n' st3. set_store n' code v st2 = Some st3
               \<and> count_list (invoked (events_since st2 st3)) c = 1
               \<and> notify_each n' code (elements (subscribers_current st2)) (assign v st2) = Some st3"
    if r: "list_all (\<lambda>c. reads_only (code c) (get st2 ++ v)) (elements (subscribers_current st2))"
  proof -
    from set_store_readers_return[OF r, of "members (subscribers_current st2)"]
    obtain n' st3 where a: "set_store n' code v st2 = Some st3"
      and mg: "merged (events_since st2 st3) = [v]"
      and q: "list_all (leaves_set (members (subscribers_current st2))) (events_since st2 st3)"
      by blast
    have k: "count_list (invoked (events_since st2 st3)) c = 1"
      using set_store_counts[OF a ok2 q m2] mg by simp
    have b: "notify_each n' code (elements (subscribers_current st2)) (assign v st2) = Some st3"
      using a q by (rule set_store_is_notify_each)
    show ?thesis
    proof (intro exI conjI)
      show "set_store n' code v st2 = Some st3" by (rule a)
      show "count_list (invoked (events_since st2 st3)) c = 1" by (rule k)
      show "notify_each n' code (elements (subscribers_current st2)) (assign v st2) = Some st3"
        by (rule b)
    qed
  qed
  let ?sa = "snd (call_unsubscribe (Unsubscribe c) st2)"
  have sa: "subscribers_current ?sa = snd (set_delete c (subscribers_current st2))" by simp
  have ma: "members (subscribers_current ?sa) = members (subscribers_current st2) - {c}"
    using sa ok2 by (simp add: members_set_delete)
  have oka: "set_ok (subscribers_current ?sa)" using sa ok2 by (simp add: set_delete_keeps_ok)
  have ca: "c \<notin> members (subscribers_current ?sa)" using ma by simp
  have gone: "c \<notin> set (invoked (events_since ?sa st''))"
    if "run m code p ?sa = Some st''" "EvSubscribe c \<notin> set (events_since ?sa st'')"
    using stays_unsubscribed[OF that(1) oka ca that(2)] by simp
  have unused: "run m (code(c := body)) p ?sa = Some st''"
    if "run m code p ?sa = Some st''" "EvSubscribe c \<notin> set (events_since ?sa st'')"
    using that(1) oka ca that(2) by (rule run_body_unused)
  have uu: "u = Unsubscribe c" if "u = u1 \<or> u = u2" using that u1 u2 by auto
  show ?thesis
    apply (intro conjI impI)
    subgoal by (rule e)
    subgoal by (rule one)
    subgoal using per_merge by blast
    subgoal using bodies by blast
    subgoal using readers by blast
    subgoal using ma uu by simp
    subgoal using gone uu by simp
    subgoal using unused uu by simp
    done
qed

text \<open>
  Callback 5 is subscribed twice next to callback 0: the Set holds 0 and 5. With the
  readers, a \<^verbatim>\<open>set\<close> invokes 0 and 5, each of which reads the store, and after one call
  of the unsubscribe function a \<^verbatim>\<open>set\<close> invokes 0 alone. With the callbacks that mark
  \<^verbatim>\<open>first\<close> and \<^verbatim>\<open>last\<close>, callback 5 has marked \<^verbatim>\<open>last\<close> when \<^verbatim>\<open>set({})\<close> returns;
  after one call of the unsubscribe function \<^verbatim>\<open>set({})\<close> leaves \<^verbatim>\<open>last\<close> as it was,
  also when the body of callback 5 would mark it unconditionally.
\<close>

theorem subscribing_twice_keeps_one_entry_witness:
  "set_ok (subscribers_current one_subscriber)
   \<and> subscribe 5 one_subscriber = (Unsubscribe 5, snd (subscribe 5 one_subscriber))
   \<and> subscribe 5 (snd (subscribe 5 one_subscriber))
        = (Unsubscribe 5, snd (subscribe 5 (snd (subscribe 5 one_subscriber))))
   \<and> elements (subscribers_current (snd (subscribe 5 (snd (subscribe 5 one_subscriber))))) = [0, 5]
   \<and> (case set_store 8 code_readers [''count'' \<mapsto> JNum 1]
              (snd (subscribe 5 (snd (subscribe 5 one_subscriber)))) of
        None \<Rightarrow> False
      | Some st' \<Rightarrow>
          list_all (leaves_set (members (subscribers_current
              (snd (subscribe 5 (snd (subscribe 5 one_subscriber)))))))
            (events_since (snd (subscribe 5 (snd (subscribe 5 one_subscriber)))) st')
        \<and> invoked (events_since (snd (subscribe 5 (snd (subscribe 5 one_subscriber)))) st') = [0, 5]
        \<and> events_since (snd (subscribe 5 (snd (subscribe 5 one_subscriber)))) st' =
            EvSet [''count'' \<mapsto> JNum 1] #
              ([EvInvoke 0] @ EvGet (get one_subscriber ++ [''count'' \<mapsto> JNum 1]) #
               [EvReturn 0, EvInvoke 5, EvGet (get one_subscriber ++ [''count'' \<mapsto> JNum 1]),
                EvReturn 5])
        \<and> notify_each 8 code_readers [0, 5]
              (assign [''count'' \<mapsto> JNum 1] (snd (subscribe 5 (snd (subscribe 5 one_subscriber)))))
            = Some st')
   \<and> list_all (\<lambda>c. reads_only (code_readers c)
          (get (snd (subscribe 5 (snd (subscribe 5 one_subscriber)))) ++ [''count'' \<mapsto> JNum 1]))
        (elements (subscribers_current (snd (subscribe 5 (snd (subscribe 5 one_subscriber))))))
   \<and> elements (subscribers_current (snd (call_unsubscribe (Unsubscribe 5)
        (snd (subscribe 5 (snd (subscribe 5 one_subscriber))))))) = [0]
   \<and> (case run 12 code_readers (CallSet [''count'' \<mapsto> JNum 1] Return)
             (snd (call_unsubscribe (Unsubscribe 5)
                (snd (subscribe 5 (snd (subscribe 5 one_subscriber)))))) of
        None \<Rightarrow> False
      | Some st'' \<Rightarrow>
          invoked (events_since (snd (call_unsubscribe (Unsubscribe 5)
                (snd (subscribe 5 (snd (subscribe 5 one_subscriber)))))) st'') = [0])
   \<and> (case set_store 20 code_markers Map.empty
              (snd (subscribe 5 (snd (subscribe 5 one_subscriber)))) of
        None \<Rightarrow> False
      | Some st' \<Rightarrow>
          get one_subscriber ''last'' = Some (JStr [])
        \<and> get st' ''last'' = Some (JStr ''seen'')
        \<and> notified 0 (events_since (snd (subscribe 5 (snd (subscribe 5 one_subscriber)))) st')
            = [0, 5]
        \<and> notify_each 20 code_markers [0, 5]
              (assign Map.empty (snd (subscribe 5 (snd (subscribe 5 one_subscriber))))) = Some st')
   \<and> (case run 20 code_markers (CallSet Map.empty Return)
             (snd (call_unsubscribe (Unsubscribe 5)
                (snd (subscribe 5 (snd (subscribe 5 one_subscriber)))))) of
        None \<Rightarrow> False
      | Some st'' \<Rightarrow>
          get st'' ''first'' = Some (JStr ''seen'')
        \<and> get st'' ''last'' = Some (JStr [])
        \<and> run 20 (code_markers(5 := CallSet [''last'' \<mapsto> JStr ''seen''] Return))
             (CallSet Map.empty Return)
             (snd (call_unsubscribe (Unsubscribe 5)
                (snd (subscribe 5 (snd (subscribe 5 one_subscriber)))))) = Some st'')"
proof -
  let ?st1 = "snd (subscribe 5 one_subscriber)"
  let ?st2 = "snd (subscribe 5 ?st1)"
  let ?sa = "snd (call_unsubscribe (Unsubscribe 5) ?st2)"
  have ok: "set_ok (subscribers_current one_subscriber)" by (simp add: store_eval)
  have a: "subscribe 5 one_subscriber = (Unsubscribe 5, ?st1)" by (simp add: subscribe_def)
  have b: "subscribe 5 ?st1 = (Unsubscribe 5, ?st2)" by (simp add: subscribe_def)
  obtain st' where r: "set_store 8 code_readers [''count'' \<mapsto> JNum 1] ?st2 = Some st'"
    by (simp add: store_eval)
  have q: "list_all (leaves_set (members (subscribers_current ?st2))) (events_since ?st2 st')"
    and i: "invoked (events_since ?st2 st') = [0, 5]"
    and ev: "events_since ?st2 st' =
            EvSet [''count'' \<mapsto> JNum 1] #
              ([EvInvoke 0] @ EvGet (get one_subscriber ++ [''count'' \<mapsto> JNum 1]) #
               [EvReturn 0, EvInvoke 5, EvGet (get one_subscriber ++ [''count'' \<mapsto> JNum 1]),
                EvReturn 5])"
    using r by (auto simp: store_eval)
  obtain st'' where r2: "run 12 code_readers (CallSet [''count'' \<mapsto> JNum 1] Return) ?sa = Some st''"
    by (simp add: store_eval)
  have q2: "EvSubscribe 5 \<notin> set (events_since ?sa st'')"
    and i2: "invoked (events_since ?sa st'') = [0]"
    using r2 by (auto simp: store_eval)
  have l: "elements (subscribers_current ?st2) = [0, 5]" "elements (subscribers_current ?sa) = [0]"
    by (simp_all add: store_eval)
  note t = subscribing_twice_keeps_one_entry[OF ok a b, where n = 8 and code = code_readers
      and v = "[''count'' \<mapsto> JNum 1]" and st' = st' and u = "Unsubscribe 5" and m = 12
      and p = "CallSet [''count'' \<mapsto> JNum 1] Return" and st'' = st'' and body = Return]
  have rd: "list_all (\<lambda>c. reads_only (code_readers c) (get ?st2 ++ [''count'' \<mapsto> JNum 1]))
        (elements (subscribers_current ?st2))"
    by (simp add: store_eval)
  have "count_list (notified 0 (events_since ?st2 st')) 5 = 1"
    using t r q by blast
  have ne: "notify_each 8 code_readers [0, 5] (assign [''count'' \<mapsto> JNum 1] ?st2) = Some st'"
    using t r q l(1) by simp
  obtain sm where rm: "set_store 20 code_markers Map.empty ?st2 = Some sm"
    by (simp add: store_eval)
  have qm: "list_all (leaves_set (members (subscribers_current ?st2))) (events_since ?st2 sm)"
    and gm: "get one_subscriber ''last'' = Some (JStr [])" "get sm ''last'' = Some (JStr ''seen'')"
    and nm: "notified 0 (events_since ?st2 sm) = [0, 5]"
    using rm by (auto simp: store_eval)
  obtain sn where rn: "run 20 code_markers (CallSet Map.empty Return) ?sa = Some sn"
    by (simp add: store_eval)
  have qn: "EvSubscribe 5 \<notin> set (events_since ?sa sn)"
    and gn: "get sn ''first'' = Some (JStr ''seen'')" "get sn ''last'' = Some (JStr [])"
    using rn by (auto simp: store_eval)
  note tm = subscribing_twice_keeps_one_entry[OF ok a b, where n = 20 and code = code_markers
      and v = Map.empty and st' = sm and u = "Unsubscribe 5" and m = 20
      and p = "CallSet Map.empty Return" and st'' = sn
      and body = "CallSet [''last'' \<mapsto> JStr ''seen''] Return"]
  have nem: "notify_each 20 code_markers [0, 5] (assign Map.empty ?st2) = Some sm"
    using tm rm qm l(1) by simp
  have un: "run 20 (code_markers(5 := CallSet [''last'' \<mapsto> JStr ''seen''] Return))
             (CallSet Map.empty Return) ?sa = Some sn"
    using tm rn qn by blast
  show ?thesis using ok a b l r q i ev ne r2 i2 rd rm gm nm nem rn gn un by simp
qed

end
